theory Spec2Isabelle
  imports Main "HOL-Library.Word" "HOL-Library.Product_Lexorder" "HOL-Library.Monad_Syntax"
begin

section \<open>Cursor-based pagination of posts (cursorBasedPagination.js)\<close>

text \<open>
  A shallow embedding of the cursor codec (\<open>encodeCursor\<close>, \<open>decodeCursor\<close>) and of the
  listing route \<open>GET /api/posts\<close>, together with the parts of the JavaScript runtime, of
  Express and of the storage driver they call: the query parameters, \<open>parseInt\<close>,
  \<open>Math.min\<close>, \<open>Date.prototype.toISOString\<close>, \<open>new Date(string)\<close>, \<open>Buffer\<close>'s base64
  codec, \<open>String.prototype.split\<close>, the \<open>ObjectId\<close> of the driver and
  \<open>find().sort().limit()\<close>.

  The text of a query parameter is a list of UTF-16 code units (\<open>nat list\<close>). Every other
  text is a \<open>string\<close>, a list of 8-bit characters: the cursor text that \<open>encodeCursor\<close>
  builds is ASCII, for which \<open>Buffer\<close>'s UTF-8 conversions are the identity, and the bytes
  that \<open>decodeCursor\<close> gets out of a token are kept as they are.

  Where the source leaves a behaviour to its environment, the behaviour is a field of the
  record \<open>host\<close>, and every statement holds for every host.
\<close>

subsection \<open>Errors\<close>

text \<open>A thrown JavaScript error, with its constructor and its message.\<close>

datatype error = Error string | RangeError string | TypeError string | BSONError string

fun message :: "error \<Rightarrow> string" where
  "message (Error m) = m"
| "message (RangeError m) = m"
| "message (TypeError m) = m"
| "message (BSONError m) = m"

subsection \<open>Digits\<close>

definition units :: "string \<Rightarrow> nat list" where
  "units s = map of_char s"

definition digitOfUnit :: "nat \<Rightarrow> nat option" where
  "digitOfUnit n =
     (if 48 \<le> n \<and> n \<le> 57 then Some (n - 48)
      else if 97 \<le> n \<and> n \<le> 122 then Some (n - 87)
      else if 65 \<le> n \<and> n \<le> 90 then Some (n - 55)
      else None)"

definition digitValue :: "char \<Rightarrow> nat option" where
  "digitValue c = digitOfUnit (of_char c)"

definition isRadixUnit :: "nat \<Rightarrow> nat \<Rightarrow> bool" where
  "isRadixUnit R u = (case digitOfUnit u of None \<Rightarrow> False | Some d \<Rightarrow> d < R)"

definition isRadixDigit :: "nat \<Rightarrow> char \<Rightarrow> bool" where
  "isRadixDigit R c = isRadixUnit R (of_char c)"

definition unitsValue :: "nat \<Rightarrow> nat list \<Rightarrow> nat" where
  "unitsValue R us =
     foldl (\<lambda>acc u. acc * R + (case digitOfUnit u of None \<Rightarrow> 0 | Some d \<Rightarrow> d)) 0 us"

definition radixValue :: "nat \<Rightarrow> string \<Rightarrow> nat" where
  "radixValue R ds = unitsValue R (units ds)"

definition digitChar :: "nat \<Rightarrow> char" where
  "digitChar d = (if d < 10 then char_of (48 + d) else char_of (87 + d))"

text \<open>The last \<open>k\<close> digits of \<open>n\<close> in base \<open>b\<close>, most significant first, zero padded.\<close>

fun digits :: "nat \<Rightarrow> nat \<Rightarrow> nat \<Rightarrow> string" where
  "digits b 0 n = []"
| "digits b (Suc k) n = digits b k (n div b) @ [digitChar (n mod b)]"

subsection \<open>Numbers\<close>

text \<open>
  The JavaScript numbers that this code meets: NaN, the infinities, and the doubles that
  hold an integer (\<open>Finite\<close>; both zeros are \<open>Finite 0\<close>). \<open>toNumber\<close> rounds an integer to
  the nearest double, ties to the even significand, and to an infinity from \<open>2^1024\<close> on.
\<close>

datatype number = NaN | Finite int | PosInfinity | NegInfinity

fun bitlen :: "nat \<Rightarrow> nat" where
  "bitlen n = (if n = 0 then 0 else Suc (bitlen (n div 2)))"

definition roundToDouble :: "nat \<Rightarrow> nat option" where
  "roundToDouble n =
     (if bitlen n \<le> 53 then Some n
      else
        (let e = bitlen n - 53;
             q = n div 2 ^ e;
             r = n mod 2 ^ e;
             h = 2 ^ (e - 1);
             m = (if h < r \<or> (r = h \<and> odd q) then q + 1 else q);
             v = m * 2 ^ e
         in if 2 ^ 1024 \<le> v then None else Some v))"

definition toNumber :: "int \<Rightarrow> number" where
  "toNumber i =
     (case roundToDouble (nat \<bar>i\<bar>) of
        None \<Rightarrow> if i < 0 then NegInfinity else PosInfinity
      | Some v \<Rightarrow> Finite (if i < 0 then - int v else int v))"

text \<open>\<open>x + 1\<close>, \<open>Math.min(x, 50)\<close> and \<open>length > x\<close> on these numbers.\<close>

definition plusOne :: "number \<Rightarrow> number" where
  "plusOne x = (case x of Finite n \<Rightarrow> toNumber (n + 1) | _ \<Rightarrow> x)"

definition min50 :: "number \<Rightarrow> number" where
  "min50 x =
     (case x of
        NaN \<Rightarrow> NaN
      | Finite n \<Rightarrow> Finite (min n 50)
      | PosInfinity \<Rightarrow> Finite 50
      | NegInfinity \<Rightarrow> NegInfinity)"

definition exceeds :: "nat \<Rightarrow> number \<Rightarrow> bool" where
  "exceeds len x =
     (case x of
        NaN \<Rightarrow> False
      | Finite n \<Rightarrow> n < int len
      | PosInfinity \<Rightarrow> False
      | NegInfinity \<Rightarrow> True)"

definition negative :: "number \<Rightarrow> bool" where
  "negative x = (case x of Finite n \<Rightarrow> n < 0 | NegInfinity \<Rightarrow> True | _ \<Rightarrow> False)"

subsection \<open>Query parameters\<close>

text \<open>
  A value of \<open>req.query\<close> as the extended query parser of Express builds it: a text, an
  array of values (\<open>?limit=1&limit=2\<close>) or an object (\<open>?limit[a]=1\<close>); an absent
  parameter is \<open>None\<close>. The parser lets a key shadow a property of the prototype, and it
  never makes a function.

  \<open>ToString\<close> of a value: an array joins the texts of its elements with commas; an object
  is \<open>[object Object]\<close>, unless it has a key \<open>toString\<close> of its own: that value cannot be
  called, \<open>valueOf\<close> gives no primitive either, and the conversion throws a TypeError.
\<close>

datatype qvalue = QString "nat list" | QArray "qvalue list" | QObject "(nat list \<times> qvalue) list"

fun joinTexts :: "(error + nat list) list \<Rightarrow> error + nat list" where
  "joinTexts [] = Inr []"
| "joinTexts [x] = x"
| "joinTexts (x # y # ys) =
     (case x of
        Inl e \<Rightarrow> Inl e
      | Inr s \<Rightarrow> (case joinTexts (y # ys) of Inl e \<Rightarrow> Inl e | Inr t \<Rightarrow> Inr (s @ 44 # t)))"

fun toStringQ :: "qvalue \<Rightarrow> error + nat list" where
  "toStringQ (QString s) = Inr s"
| "toStringQ (QArray vs) = joinTexts (map toStringQ vs)"
| "toStringQ (QObject kvs) =
     (if units ''toString'' \<in> set (map fst kvs)
      then Inl (TypeError ''Cannot convert object to primitive value'')
      else Inr (units ''[object Object]''))"

subsection \<open>parseInt and the page size\<close>

text \<open>
  \<open>parseInt(text)\<close> with no radix: leading white space is skipped, a sign is read, a
  prefix \<open>0x\<close> or \<open>0X\<close> selects radix 16, and the longest run of digits of the radix is
  the value, rounded to a double; with no digit the result is NaN.
\<close>

definition isWhiteSpace :: "nat \<Rightarrow> bool" where
  "isWhiteSpace u =
     (u \<in> {9, 10, 11, 12, 13, 32, 160, 5760, 8232, 8233, 8239, 8287, 12288, 65279}
      \<or> (8192 \<le> u \<and> u \<le> 8202))"

definition parseDigits :: "nat \<Rightarrow> nat list \<Rightarrow> nat option" where
  "parseDigits R s =
     (let Z = takeWhile (isRadixUnit R) s in
      if Z = [] then None else Some (unitsValue R Z))"

definition parseUnsigned :: "nat list \<Rightarrow> nat option" where
  "parseUnsigned s =
     (if take 2 s = units ''0x'' \<or> take 2 s = units ''0X'' then parseDigits 16 (drop 2 s)
      else parseDigits 10 s)"

text \<open>The integer that the text spells, before it is rounded.\<close>

definition parseInteger :: "nat list \<Rightarrow> int option" where
  "parseInteger inputString =
     (let S = dropWhile isWhiteSpace inputString in
      case S of
        [] \<Rightarrow> None
      | c # r \<Rightarrow>
          if c = 45 then map_option (\<lambda>n. - int n) (parseUnsigned r)
          else if c = 43 then map_option int (parseUnsigned r)
          else map_option int (parseUnsigned S))"

definition parseInt :: "nat list \<Rightarrow> number" where
  "parseInt inputString =
     (case parseInteger inputString of None \<Rightarrow> NaN | Some i \<Rightarrow> toNumber i)"

text \<open>
  \<open>Math.min(parseInt(req.query.limit) || 10, 50)\<close>. An absent parameter is
  \<open>undefined\<close>, which \<open>parseInt\<close> reads as the text \<open>undefined\<close>: NaN. NaN and the zeros
  are falsy, so \<open>||\<close> replaces them by 10. The conversion of the parameter to a text can
  throw.
\<close>

definition pageLimit :: "qvalue option \<Rightarrow> error + number" where
  "pageLimit l =
     (case (case l of None \<Rightarrow> Inr NaN
                    | Some v \<Rightarrow> (case toStringQ v of Inl e \<Rightarrow> Inl e | Inr s \<Rightarrow> Inr (parseInt s))) of
        Inl e \<Rightarrow> Inl e
      | Inr parsed \<Rightarrow>
          Inr (min50 (if parsed = NaN \<or> parsed = Finite 0 then Finite 10 else parsed)))"

subsection \<open>Dates\<close>

text \<open>
  A \<open>Date\<close> is its time value: the milliseconds since the epoch, an integer of at
  most \<open>8.64e15\<close> in magnitude. A value outside that range models an invalid date (its
  JavaScript time value is NaN). The day and year arithmetic is ECMAScript's.
\<close>

definition validTime :: "int \<Rightarrow> bool" where
  "validTime t = (- 8640000000000000 \<le> t \<and> t \<le> 8640000000000000)"

definition msPerDay :: int where
  "msPerDay = 86400000"

definition Day :: "int \<Rightarrow> int" where
  "Day t = t div msPerDay"

definition TimeWithinDay :: "int \<Rightarrow> int" where
  "TimeWithinDay t = t mod msPerDay"

definition DayFromYear :: "int \<Rightarrow> int" where
  "DayFromYear y =
     365 * (y - 1970) + (y - 1969) div 4 - (y - 1901) div 100 + (y - 1601) div 400"

definition isLeapYear :: "int \<Rightarrow> bool" where
  "isLeapYear y = (y mod 4 = 0 \<and> (y mod 100 \<noteq> 0 \<or> y mod 400 = 0))"

text \<open>
  \<open>YearFromTime(t)\<close> is the largest year whose first day is not after \<open>t\<close>; it is
  computed from an estimate by the mean year length, which is off by at most one.
\<close>

definition YearFromDay :: "int \<Rightarrow> int" where
  "YearFromDay d =
     (let e = 1970 + (400 * d) div 146097 in
      if DayFromYear (e + 1) \<le> d then e + 1
      else if DayFromYear e \<le> d then e
      else e - 1)"

definition YearFromTime :: "int \<Rightarrow> int" where
  "YearFromTime t = YearFromDay (Day t)"

text \<open>
  The day within the year at which month \<open>m\<close> (0 is January) starts; \<open>m = 12\<close> gives
  the length of the year.
\<close>

definition monthStart :: "bool \<Rightarrow> nat \<Rightarrow> int" where
  "monthStart leap m =
     [0, 31, 59, 90, 120, 151, 181, 212, 243, 273, 304, 334, 365] ! m
       + (if leap \<and> 2 \<le> m then 1 else 0)"

text \<open>The last month among \<open>0..m\<close> that has started on day \<open>d\<close> of the year.\<close>

fun monthOfDay :: "bool \<Rightarrow> int \<Rightarrow> nat \<Rightarrow> nat" where
  "monthOfDay leap d 0 = 0"
| "monthOfDay leap d (Suc m) =
     (if monthStart leap (Suc m) \<le> d then Suc m else monthOfDay leap d m)"

definition DayWithinYear :: "int \<Rightarrow> int" where
  "DayWithinYear t = Day t - DayFromYear (YearFromTime t)"

definition MonthFromTime :: "int \<Rightarrow> nat" where
  "MonthFromTime t = monthOfDay (isLeapYear (YearFromTime t)) (DayWithinYear t) 11"

definition DateFromTime :: "int \<Rightarrow> int" where
  "DateFromTime t =
     DayWithinYear t - monthStart (isLeapYear (YearFromTime t)) (MonthFromTime t) + 1"

definition HourFromTime :: "int \<Rightarrow> int" where
  "HourFromTime t = TimeWithinDay t div 3600000"

definition MinFromTime :: "int \<Rightarrow> int" where
  "MinFromTime t = (TimeWithinDay t div 60000) mod 60"

definition SecFromTime :: "int \<Rightarrow> int" where
  "SecFromTime t = (TimeWithinDay t div 1000) mod 60"

definition msFromTime :: "int \<Rightarrow> int" where
  "msFromTime t = TimeWithinDay t mod 1000"

definition MakeTime :: "int \<Rightarrow> int \<Rightarrow> int \<Rightarrow> int \<Rightarrow> int" where
  "MakeTime h mi s ms = h * 3600000 + mi * 60000 + s * 1000 + ms"

definition MakeDay :: "int \<Rightarrow> nat \<Rightarrow> int \<Rightarrow> int" where
  "MakeDay y m dt = DayFromYear y + monthStart (isLeapYear y) m + dt - 1"

definition MakeDate :: "int \<Rightarrow> int \<Rightarrow> int" where
  "MakeDate day time = day * msPerDay + time"

text \<open>
  \<open>toISOString\<close>: \<open>YYYY-MM-DDTHH:mm:ss.sssZ\<close>, the year as four digits when it is in
  \<open>0..9999\<close> and as a sign and six digits otherwise. On an invalid date it throws a
  RangeError.
\<close>

definition yearString :: "int \<Rightarrow> string" where
  "yearString y =
     (if 0 \<le> y \<and> y \<le> 9999 then digits 10 4 (nat y)
      else (if y < 0 then ''-'' else ''+'') @ digits 10 6 (nat \<bar>y\<bar>))"

definition toISOString :: "int \<Rightarrow> error + string" where
  "toISOString t =
     (if \<not> validTime t then Inl (RangeError ''Invalid time value'')
      else Inr (yearString (YearFromTime t)
        @ ''-'' @ digits 10 2 (MonthFromTime t + 1)
        @ ''-'' @ digits 10 2 (nat (DateFromTime t))
        @ ''T'' @ digits 10 2 (nat (HourFromTime t))
        @ '':'' @ digits 10 2 (nat (MinFromTime t))
        @ '':'' @ digits 10 2 (nat (SecFromTime t))
        @ ''.'' @ digits 10 3 (nat (msFromTime t))
        @ ''Z''))"

text \<open>
  \<open>new Date(string)\<close>. A text of the full form that \<open>toISOString\<close> writes, with every
  field in its range, is read by \<open>parseISO\<close>. What the engine makes of any other text
  (shorter ISO forms, local times, its legacy formats) is not fixed here: it is the
  parameter \<open>other\<close>, a function from the text to a time value or to NaN (\<open>None\<close>).
\<close>

definition readDigits :: "nat \<Rightarrow> string \<Rightarrow> (nat \<times> string) option" where
  "readDigits k s =
     (if k \<le> length s \<and> list_all (isRadixDigit 10) (take k s)
      then Some (radixValue 10 (take k s), drop k s) else None)"

definition expect :: "char \<Rightarrow> string \<Rightarrow> string option" where
  "expect c s = (case s of [] \<Rightarrow> None | x # r \<Rightarrow> if x = c then Some r else None)"

definition readYear :: "string \<Rightarrow> (int \<times> string) option" where
  "readYear s =
     (case s of
        [] \<Rightarrow> None
      | c # r \<Rightarrow>
          if c = CHR ''+'' then
            (case readDigits 6 r of None \<Rightarrow> None | Some (n, r') \<Rightarrow> Some (int n, r'))
          else if c = CHR ''-'' then
            (case readDigits 6 r of
               None \<Rightarrow> None
             | Some (n, r') \<Rightarrow> if n = 0 then None else Some (- int n, r'))
          else
            (case readDigits 4 s of None \<Rightarrow> None | Some (n, r') \<Rightarrow> Some (int n, r')))"

definition parseISO :: "string \<Rightarrow> int option" where
  "parseISO s =
     do {
       (y, s1) \<leftarrow> readYear s;
       s2 \<leftarrow> expect CHR ''-'' s1;
       (mo, s3) \<leftarrow> readDigits 2 s2;
       s4 \<leftarrow> expect CHR ''-'' s3;
       (d, s5) \<leftarrow> readDigits 2 s4;
       s6 \<leftarrow> expect CHR ''T'' s5;
       (h, s7) \<leftarrow> readDigits 2 s6;
       s8 \<leftarrow> expect CHR '':'' s7;
       (mi, s9) \<leftarrow> readDigits 2 s8;
       s10 \<leftarrow> expect CHR '':'' s9;
       (sec, s11) \<leftarrow> readDigits 2 s10;
       s12 \<leftarrow> expect CHR ''.'' s11;
       (ms, s13) \<leftarrow> readDigits 3 s12;
       s14 \<leftarrow> expect CHR ''Z'' s13;
       if s14 = [] \<and> 1 \<le> mo \<and> mo \<le> 12 \<and> 1 \<le> d
          \<and> int d \<le> monthStart (isLeapYear y) mo - monthStart (isLeapYear y) (mo - 1)
          \<and> h \<le> 23 \<and> mi \<le> 59 \<and> sec \<le> 59
       then
         (let t = MakeDate (MakeDay y (mo - 1) (int d))
                    (MakeTime (int h) (int mi) (int sec) (int ms))
          in if validTime t then Some t else None)
       else None
     }"

definition Date_parse :: "(string \<Rightarrow> int option) \<Rightarrow> string \<Rightarrow> int option" where
  "Date_parse other s =
     (case parseISO s of
        Some t \<Rightarrow> Some t
      | None \<Rightarrow> (case other s of
                   None \<Rightarrow> None
                 | Some t \<Rightarrow> if validTime t then Some t else None))"

subsection \<open>The environment\<close>

text \<open>
  What the source leaves to the engine, to \<open>Buffer\<close>, to the driver and to the store:
  \<^item> \<open>dateOther\<close>: \<open>new Date(text)\<close> on a text that is not of the full form read by
    \<open>parseISO\<close>;
  \<^item> \<open>bufferOther\<close>: the bytes of \<open>Buffer.from(value, 'base64')\<close> for a parameter that is
    not a text of 8-bit characters (an array, an object, a text with a wider
    character), or the error it throws;
  \<^item> \<open>idValidOther\<close> and \<open>idOther\<close>: what \<open>ObjectId.isValid\<close> says of a text that is
    not 24 hexadecimal digits, and the ObjectId that the constructor makes of it or the
    error it throws (older drivers take any 12 characters, and the two need not agree);
  \<^item> \<open>findOther\<close>: the answer of the store to a \<open>limit\<close> that is negative, infinite or
    beyond 32 bits.
\<close>

record host =
  dateOther :: "string \<Rightarrow> int option"
  bufferOther :: "qvalue \<Rightarrow> error + string"
  idValidOther :: "string \<Rightarrow> bool"
  idOther :: "string \<Rightarrow> error + 96 word"
  findOther :: "number \<Rightarrow> error + nat"

subsection \<open>ObjectId\<close>

text \<open>
  An ObjectId is 12 bytes, here the 96-bit word they spell; the store compares ObjectIds
  byte by byte, which is the order of the words. Its text is 24 lower-case hexadecimal
  digits. \<open>ObjectId.isValid\<close> holds of 24 hexadecimal digits of either case, and the
  constructor gives the id they spell; any other text is left to the host.
\<close>

type_synonym ObjectId = "96 word"

definition toHexString :: "ObjectId \<Rightarrow> string" where
  "toHexString w = digits 16 24 (unat w)"

definition isHex24 :: "string \<Rightarrow> bool" where
  "isHex24 s = (length s = 24 \<and> list_all (isRadixDigit 16) s)"

definition ObjectId_isValid :: "host \<Rightarrow> string \<Rightarrow> bool" where
  "ObjectId_isValid host s = (isHex24 s \<or> idValidOther host s)"

definition new_ObjectId :: "host \<Rightarrow> string \<Rightarrow> error + ObjectId" where
  "new_ObjectId host s =
     (if isHex24 s then Inr (word_of_nat (radixValue 16 s)) else idOther host s)"

subsection \<open>Base64\<close>

text \<open>
  \<open>Buffer.from(text).toString('base64')\<close> writes the standard alphabet with \<open>=\<close>
  padding. \<open>Buffer.from(token, 'base64')\<close> never fails: it also reads the URL-safe
  alphabet, skips every character outside the alphabets, stops at the first \<open>=\<close>, and
  drops a last group that does not fill a byte.
\<close>

definition b64char :: "nat \<Rightarrow> char" where
  "b64char n =
     (if n < 26 then char_of (65 + n)
      else if n < 52 then char_of (71 + n)
      else if n < 62 then char_of (n - 4)
      else if n = 62 then CHR ''+'' else CHR ''/'')"

definition unbase64 :: "char \<Rightarrow> nat option" where
  "unbase64 c =
     (let n = of_char c :: nat in
      if 65 \<le> n \<and> n \<le> 90 then Some (n - 65)
      else if 97 \<le> n \<and> n \<le> 122 then Some (n - 71)
      else if 48 \<le> n \<and> n \<le> 57 then Some (n + 4)
      else if c = CHR ''+'' \<or> c = CHR ''-'' then Some 62
      else if c = CHR ''/'' \<or> c = CHR ''_'' then Some 63
      else None)"

fun base64_encode_bytes :: "nat list \<Rightarrow> string" where
  "base64_encode_bytes [] = []"
| "base64_encode_bytes [a] =
     [b64char (a div 4), b64char ((a mod 4) * 16), CHR ''='', CHR ''='']"
| "base64_encode_bytes [a, b] =
     [b64char (a div 4), b64char ((a mod 4) * 16 + b div 16),
      b64char ((b mod 16) * 4), CHR ''='']"
| "base64_encode_bytes (a # b # c # r) =
     [b64char (a div 4), b64char ((a mod 4) * 16 + b div 16),
      b64char ((b mod 16) * 4 + c div 64), b64char (c mod 64)]
     @ base64_encode_bytes r"

definition base64_encode :: "string \<Rightarrow> string" where
  "base64_encode s = base64_encode_bytes (map of_char s)"

fun base64_decode_sextets :: "nat list \<Rightarrow> nat list" where
  "base64_decode_sextets (s1 # s2 # s3 # s4 # r) =
     [s1 * 4 + s2 div 16, (s2 mod 16) * 16 + s3 div 4, (s3 mod 4) * 64 + s4]
     @ base64_decode_sextets r"
| "base64_decode_sextets [s1, s2, s3] = [s1 * 4 + s2 div 16, (s2 mod 16) * 16 + s3 div 4]"
| "base64_decode_sextets [s1, s2] = [s1 * 4 + s2 div 16]"
| "base64_decode_sextets _ = []"

definition base64_decode :: "string \<Rightarrow> string" where
  "base64_decode s =
     map char_of (base64_decode_sextets
       (List.map_filter unbase64 (takeWhile (\<lambda>c. c \<noteq> CHR ''='') s)))"

subsection \<open>The cursor codec\<close>

text \<open>\<open>decoded.split('|')\<close>: the pieces between the separators; never an empty list.\<close>

fun split :: "char \<Rightarrow> string \<Rightarrow> string list" where
  "split sep [] = [[]]"
| "split sep (c # cs) =
     (if c = sep then [] # split sep cs
      else (case split sep cs of [] \<Rightarrow> [[c]] | p # ps \<Rightarrow> (c # p) # ps))"

definition encodeCursor :: "int \<Rightarrow> ObjectId \<Rightarrow> error + string" where
  "encodeCursor createdAt ident =
     (case toISOString createdAt of
        Inl e \<Rightarrow> Inl e
      | Inr isoText \<Rightarrow> Inr (base64_encode (isoText @ ''|'' @ toHexString ident)))"

text \<open>\<open>Buffer.from(cursor, 'base64').toString('utf-8')\<close>\<close>

definition bufferText :: "host \<Rightarrow> qvalue \<Rightarrow> error + string" where
  "bufferText host cursor =
     (case cursor of
        QString s \<Rightarrow>
          if list_all (\<lambda>u. u < 256) s then Inr (base64_decode (map char_of s))
          else bufferOther host cursor
      | _ \<Rightarrow> bufferOther host cursor)"

text \<open>
  The body of the \<open>try\<close> of \<open>decodeCursor\<close>, with its three \<open>throw\<close>s. The two names
  of the destructuring are the first two pieces; a missing piece is \<open>undefined\<close>, which
  is falsy as the empty text is.
\<close>

definition decodeCursor_try :: "host \<Rightarrow> qvalue \<Rightarrow> error + (int \<times> string)" where
  "decodeCursor_try host cursor =
     (case bufferText host cursor of
        Inl e \<Rightarrow> Inl e
      | Inr decoded \<Rightarrow>
          (case split CHR ''|'' decoded of
             createdAt # ident # _ \<Rightarrow>
               if createdAt = [] \<or> ident = [] then Inl (Error ''Invalid cursor format'')
               else (case Date_parse (dateOther host) createdAt of
                       None \<Rightarrow> Inl (Error ''Invalid date in cursor'')
                     | Some date \<Rightarrow>
                         if \<not> ObjectId_isValid host ident
                         then Inl (Error ''Invalid ObjectId in cursor'')
                         else Inr (date, ident))
           | _ \<Rightarrow> Inl (Error ''Invalid cursor format'')))"

text \<open>The \<open>catch\<close> replaces whatever was thrown by one error.\<close>

definition decodeCursor :: "host \<Rightarrow> qvalue \<Rightarrow> error + (int \<times> string)" where
  "decodeCursor host cursor =
     (case decodeCursor_try host cursor of
        Inl e \<Rightarrow> Inl (Error ''Malformed cursor'')
      | Inr r \<Rightarrow> Inr r)"

subsection \<open>Posts and the store\<close>

text \<open>
  The documents of the \<open>Post\<close> model. The field \<open>_id\<close> is \<open>post_id\<close>, the field
  \<open>user\<close> is \<open>author\<close> and its \<open>id\<close> is \<open>user_id\<close>; \<open>updatedAt\<close> comes with the
  \<open>timestamps\<close> of the schema. The collection is the list of its documents, in any
  order.
\<close>

record user =
  user_id :: ObjectId
  username :: string
  displayName :: string
  avatar :: "string option"

record likes =
  count :: int
  userIds :: "ObjectId list"

record post =
  post_id :: ObjectId
  content :: string
  author :: user
  likes :: likes
  createdAt :: int
  updatedAt :: int
  isDeleted :: bool

text \<open>
  A query document: the fields at its top level, which must all hold, and an optional
  \<open>$or\<close>, a list of documents of which one must hold.
\<close>

datatype criterion =
    IsDeleted_eq bool
  | CreatedAt_lt int
  | CreatedAt_eq int
  | Id_lt ObjectId

record query =
  top_fields :: "criterion list"
  or_docs :: "criterion list list option"

fun holds :: "post \<Rightarrow> criterion \<Rightarrow> bool" where
  "holds p (IsDeleted_eq b) = (isDeleted p = b)"
| "holds p (CreatedAt_lt c) = (createdAt p < c)"
| "holds p (CreatedAt_eq c) = (createdAt p = c)"
| "holds p (Id_lt i) = (post_id p < i)"

definition matches :: "query \<Rightarrow> post \<Rightarrow> bool" where
  "matches q p =
     (list_all (holds p) (top_fields q)
      \<and> (case or_docs q of None \<Rightarrow> True | Some ds \<Rightarrow> list_ex (list_all (holds p)) ds))"

text \<open>\<open>sort({ createdAt: -1, _id: -1 })\<close>: newest first, the larger id first among equals.\<close>

definition sortKey :: "post \<Rightarrow> int \<times> ObjectId" where
  "sortKey p = (createdAt p, post_id p)"

definition sort_desc :: "post list \<Rightarrow> post list" where
  "sort_desc ps = rev (sort_key sortKey ps)"

text \<open>\<open>limit(n)\<close> of the store, for \<open>n \<ge> 0\<close>: \<open>n = 0\<close> is no limit.\<close>

definition limit_docs :: "int \<Rightarrow> 'a list \<Rightarrow> 'a list" where
  "limit_docs n ds = (if n = 0 then ds else take (nat n) ds)"

text \<open>\<open>Post.find(query).sort({ createdAt: -1, _id: -1 })\<close>: every match, in order.\<close>

definition matching :: "post list \<Rightarrow> query \<Rightarrow> post list" where
  "matching db q = sort_desc (filter (matches q) db)"

text \<open>
  \<open>Post.find(query).sort({ createdAt: -1, _id: -1 }).limit(n).lean()\<close>. The store is
  taken to answer. A negative limit asks for a single batch of at most its magnitude,
  and a limit that is infinite or beyond 32 bits is for the driver to take or refuse:
  on these the answer is the host's, an error or the number of documents it lets
  through.
\<close>

definition find_posts :: "host \<Rightarrow> post list \<Rightarrow> query \<Rightarrow> number \<Rightarrow> error + post list" where
  "find_posts host db q n =
     (case n of
        Finite k \<Rightarrow>
          if 0 \<le> k \<and> k \<le> 2147483647 then Inr (limit_docs k (matching db q))
          else (case findOther host n of
                  Inl e \<Rightarrow> Inl e | Inr m \<Rightarrow> Inr (take m (matching db q)))
      | _ \<Rightarrow> (case findOther host n of
                Inl e \<Rightarrow> Inl e | Inr m \<Rightarrow> Inr (take m (matching db q))))"

subsection \<open>The listing route\<close>

record request =
  query_limit :: "qvalue option"
  query_after :: "qvalue option"

record likes_json =
  json_count :: int

record post_json =
  json_id :: ObjectId
  json_content :: string
  json_user :: user
  json_likes :: likes_json
  json_createdAt :: int

record pagination =
  nextCursor :: "string option"
  hasMore :: bool
  limit :: number
  page_count :: nat

record page =
  posts :: "post_json list"
  pagination :: pagination

text \<open>A response: a page with status 200, or a status with \<open>{ error, message }\<close>.\<close>

datatype response =
    Ok page
  | Failure nat string string

text \<open>What the route did: its response and the \<open>find\<close> calls it made on the store.\<close>

record outcome =
  response :: response
  finds :: "(query \<times> number) list"

definition transformPost :: "post \<Rightarrow> post_json" where
  "transformPost p =
     \<lparr> json_id = post_id p,
       json_content = content p,
       json_user = \<lparr> user_id = user_id (author p), username = username (author p),
                     displayName = displayName (author p), avatar = avatar (author p) \<rparr>,
       json_likes = \<lparr> json_count = count (likes p) \<rparr>,
       json_createdAt = createdAt p \<rparr>"

text \<open>\<open>if (cursor)\<close>: an absent parameter and the empty text are falsy.\<close>

definition truthy :: "qvalue option \<Rightarrow> bool" where
  "truthy v = (v \<noteq> None \<and> v \<noteq> Some (QString []))"

text \<open>
  The cursor part of the route: the query gets its \<open>$or\<close>, or whatever the inner \<open>try\<close>
  catches becomes the 400 response.
\<close>

definition cursorQuery :: "host \<Rightarrow> qvalue option \<Rightarrow> response + query" where
  "cursorQuery host cursor =
     (let q = \<lparr> top_fields = [IsDeleted_eq False], or_docs = None \<rparr> in
      case cursor of
        None \<Rightarrow> Inr q
      | Some token \<Rightarrow>
          if \<not> truthy cursor then Inr q
          else
            (case decodeCursor host token of
               Inl e \<Rightarrow> Inl (Failure 400 ''Invalid cursor'' (message e))
             | Inr (c, ident) \<Rightarrow>
                 (case new_ObjectId host ident of
                    Inl e \<Rightarrow> Inl (Failure 400 ''Invalid cursor'' (message e))
                  | Inr i \<Rightarrow>
                      Inr (q\<lparr> or_docs :=
                                Some [[CreatedAt_lt c], [CreatedAt_eq c, Id_lt i]] \<rparr>))))"

text \<open>
  The route. The outer \<open>catch\<close> answers 500 to the TypeError of the conversion of
  \<open>limit\<close>, to an error of the store and to the RangeError of \<open>encodeCursor\<close> on an
  invalid date.
\<close>

definition internalError :: response where
  "internalError = Failure 500 ''Internal server error'' ''Failed to fetch posts''"

definition get_api_posts :: "host \<Rightarrow> post list \<Rightarrow> request \<Rightarrow> outcome" where
  "get_api_posts host db req =
     (case pageLimit (query_limit req) of
        Inl e \<Rightarrow> \<lparr> response = internalError, finds = [] \<rparr>
      | Inr lim \<Rightarrow>
          (case cursorQuery host (query_after req) of
             Inl bad \<Rightarrow> \<lparr> response = bad, finds = [] \<rparr>
           | Inr q \<Rightarrow>
               (case find_posts host db q (plusOne lim) of
                  Inl e \<Rightarrow> \<lparr> response = internalError, finds = [(q, plusOne lim)] \<rparr>
                | Inr found \<Rightarrow>
                    (let more = exceeds (length found) lim;
                         slicedPosts = (if more then butlast found else found);
                         next = (if more \<and> slicedPosts \<noteq> []
                                 then (case encodeCursor (createdAt (last slicedPosts))
                                              (post_id (last slicedPosts)) of
                                         Inl e \<Rightarrow> Inl e | Inr token \<Rightarrow> Inr (Some token))
                                 else Inr None)
                     in case next of
                          Inl e \<Rightarrow> \<lparr> response = internalError, finds = [(q, plusOne lim)] \<rparr>
                        | Inr cur \<Rightarrow>
                            \<lparr> response =
                                Ok \<lparr> posts = map transformPost slicedPosts,
                                     pagination = \<lparr> nextCursor = cur, hasMore = more,
                                                    limit = lim,
                                                    page_count = length slicedPosts \<rparr> \<rparr>,
                              finds = [(q, plusOne lim)] \<rparr>))))"

subsection \<open>Notions used in the statements\<close>

text \<open>The two queries that the route builds: without a cursor, and after a position.\<close>

definition liveQuery :: query where
  "liveQuery = \<lparr> top_fields = [IsDeleted_eq False], or_docs = None \<rparr>"

definition afterQuery :: "int \<Rightarrow> ObjectId \<Rightarrow> query" where
  "afterQuery c i =
     \<lparr> top_fields = [IsDeleted_eq False],
       or_docs = Some [[CreatedAt_lt c], [CreatedAt_eq c, Id_lt i]] \<rparr>"

text \<open>A post with its liker ids removed, and a request for a page size and a cursor.\<close>

definition withoutLikers :: "post \<Rightarrow> post" where
  "withoutLikers p = p\<lparr> likes := (likes p)\<lparr> userIds := [] \<rparr> \<rparr>"

definition listing :: "string \<Rightarrow> string option \<Rightarrow> request" where
  "listing lim cur =
     \<lparr> query_limit = Some (QString (units lim)),
       query_after = map_option (\<lambda>token. QString (units token)) cur \<rparr>"

text \<open>
  For the instances: a host that refuses whatever is left to it, and a post that
  differs from the other seeds in its id and its creation time only.
\<close>

definition plainHost :: host where
  "plainHost =
     \<lparr> dateOther = (\<lambda>s. None),
       bufferOther = (\<lambda>v. Inl (TypeError ''The first argument must be of type string'')),
       idValidOther = (\<lambda>s. False),
       idOther = (\<lambda>s. Inl (BSONError
         ''input must be a 24 character hex string, 12 byte Uint8Array, or an integer'')),
       findOther = (\<lambda>n. Inl (Error ''unsupported limit'')) \<rparr>"

definition seedPost :: "nat \<Rightarrow> int \<Rightarrow> post" where
  "seedPost n t =
     \<lparr> post_id = word_of_nat n, content = ''post'',
       author = \<lparr> user_id = 7, username = ''ada'', displayName = ''Ada'', avatar = None \<rparr>,
       likes = \<lparr> count = 0, userIds = [] \<rparr>,
       createdAt = t, updatedAt = t, isDeleted = False \<rparr>"

section \<open>Lemmas about the runtime\<close>

subsection \<open>Digits\<close>

lemma digitValue_digitChar: "d < 16 \<Longrightarrow> digitValue (digitChar d) = Some d"
  by (auto simp add: digitValue_def digitOfUnit_def digitChar_def)

lemma isRadixDigit_digitChar: "d < b \<Longrightarrow> b \<le> 16 \<Longrightarrow> isRadixDigit b (digitChar d)"
  using digitValue_digitChar [of d]
  by (simp add: isRadixDigit_def isRadixUnit_def digitValue_def)

lemma radixValue_snoc:
  "radixValue R (ds @ [c]) = radixValue R ds * R + (case digitValue c of None \<Rightarrow> 0 | Some d \<Rightarrow> d)"
  by (simp add: radixValue_def unitsValue_def units_def digitValue_def)

lemma length_digits [simp]: "length (digits b k n) = k"
  by (induction k arbitrary: n) auto

lemma radixValue_digits: "0 < b \<Longrightarrow> b \<le> 16 \<Longrightarrow> radixValue b (digits b k n) = n mod b ^ k"
proof (induction k arbitrary: n)
  case 0
  then show ?case by (simp add: radixValue_def unitsValue_def units_def)
next
  case (Suc k)
  have "n mod b < 16" using Suc.prems by (meson mod_less_divisor less_le_trans)
  then have "radixValue b (digits b (Suc k) n) = (n div b) mod b ^ k * b + n mod b"
    using Suc by (simp add: radixValue_snoc digitValue_digitChar)
  also have "\<dots> = n mod b ^ Suc k"
    by (simp add: mod_mult2_eq mult.commute)
  finally show ?case .
qed

lemma all_digits: "0 < b \<Longrightarrow> b \<le> 16 \<Longrightarrow> list_all (isRadixDigit b) (digits b k n)"
  by (induction k arbitrary: n) (auto simp add: isRadixDigit_digitChar)

lemma readDigits_digits:
  "n < 10 ^ k \<Longrightarrow> readDigits k (digits 10 k n @ rest) = Some (n, rest)"
  by (simp add: readDigits_def all_digits radixValue_digits)

lemma expect_Cons [simp]: "expect c (c # r) = Some r"
  by (simp add: expect_def)

subsection \<open>Years, months and days\<close>

lemma div_step:
  fixes n k :: int
  assumes "1 < k"
  shows "(n + 1) div k = n div k + (if (n + 1) mod k = 0 then 1 else 0)"
proof -
  define r where "r = n mod k"
  have r: "0 \<le> r" "r < k" using assms by (simp_all add: r_def)
  have e: "n + 1 = k * (n div k) + (r + 1)" by (simp add: r_def)
  have k0: "k \<noteq> 0" using assms by simp
  have d: "(n + 1) div k = n div k + (r + 1) div k"
    unfolding e using k0 by (rule div_mult_self4)
  have m: "(n + 1) mod k = (r + 1) mod k"
    unfolding e by (rule mod_mult_self4)
  show ?thesis
  proof (cases "r + 1 = k")
    case True
    then show ?thesis using d m assms by simp
  next
    case False
    then have "r + 1 < k" "0 \<le> r + 1" using r by linarith+
    then have "(r + 1) div k = 0" "(r + 1) mod k = r + 1" by simp_all
    then show ?thesis using d m r by simp
  qed
qed

lemma mod_shift: "(y - k * c) mod k = y mod k" for y :: int
  by algebra

lemma DayFromYear_step:
  "DayFromYear (y + 1) = DayFromYear y + (if isLeapYear y then 366 else 365)"
proof -
  define m4 where "m4 = (y mod 4 = 0)"
  define m100 where "m100 = (y mod 100 = 0)"
  define m400 where "m400 = (y mod 400 = 0)"
  define q4 where "q4 = (y - 1969) div 4"
  define q100 where "q100 = (y - 1901) div 100"
  define q400 where "q400 = (y - 1601) div 400"
  have m: "(y - 1968) mod 4 = y mod 4" "(y - 1900) mod 100 = y mod 100"
      "(y - 1600) mod 400 = y mod 400"
    using mod_shift [of y 4 492] mod_shift [of y 100 19] mod_shift [of y 400 4] by simp_all
  have a: "(y + 1 - 1969) div 4 = q4 + (if m4 then 1 else 0)"
    using div_step [of 4 "y - 1969"] by (simp add: q4_def m4_def m)
  have b: "(y + 1 - 1901) div 100 = q100 + (if m100 then 1 else 0)"
    using div_step [of 100 "y - 1901"] by (simp add: q100_def m100_def m)
  have c: "(y + 1 - 1601) div 400 = q400 + (if m400 then 1 else 0)"
    using div_step [of 400 "y - 1601"] by (simp add: q400_def m400_def m)
  have d1: "m400 \<Longrightarrow> m100"
    unfolding m400_def m100_def using mod_mod_cancel [of 100 400 y] by simp
  have d2: "m100 \<Longrightarrow> m4"
    unfolding m100_def m4_def using mod_mod_cancel [of 4 100 y] by simp
  have L: "isLeapYear y = (m4 \<and> (\<not> m100 \<or> m400))"
    by (simp add: isLeapYear_def m4_def m100_def m400_def)
  have D1: "DayFromYear (y + 1) = 365 * (y + 1 - 1970) + (q4 + (if m4 then 1 else 0))
      - (q100 + (if m100 then 1 else 0)) + (q400 + (if m400 then 1 else 0))"
    unfolding DayFromYear_def a b c ..
  have D0: "DayFromYear y = 365 * (y - 1970) + q4 - q100 + q400"
    unfolding DayFromYear_def q4_def q100_def q400_def ..
  show ?thesis
    unfolding D1 D0 L using d1 d2 by (cases m4; cases m100; cases m400) simp_all
qed

lemma DayFromYear_bounds:
  "146097 * (y - 1970) - 506 \<le> 400 * DayFromYear y"
  "400 * DayFromYear y \<le> 146097 * (y - 1970) + 589"
proof -
  define q4 where "q4 = (y - 1969) div 4"
  define q100 where "q100 = (y - 1901) div 100"
  define q400 where "q400 = (y - 1601) div 400"
  have f4: "4 * q4 \<le> y - 1969" "y - 1969 < 4 * q4 + 4"
    unfolding q4_def by simp_all
  have f100: "100 * q100 \<le> y - 1901" "y - 1901 < 100 * q100 + 100"
    unfolding q100_def by simp_all
  have f400: "400 * q400 \<le> y - 1601" "y - 1601 < 400 * q400 + 400"
    unfolding q400_def by simp_all
  have D: "DayFromYear y = 365 * (y - 1970) + q4 - q100 + q400"
    by (simp add: DayFromYear_def q4_def q100_def q400_def)
  show "146097 * (y - 1970) - 506 \<le> 400 * DayFromYear y"
    unfolding D using f4 f100 f400 by simp
  show "400 * DayFromYear y \<le> 146097 * (y - 1970) + 589"
    unfolding D using f4 f100 f400 by simp
qed

lemma YearFromDay_spec:
  "DayFromYear (YearFromDay d) \<le> d" "d < DayFromYear (YearFromDay d + 1)"
proof -
  define e where "e = (400 * d) div 146097"
  have e: "146097 * e \<le> 400 * d" "400 * d < 146097 * e + 146097"
    unfolding e_def by simp_all
  have "400 * DayFromYear (1969 + e) \<le> 146097 * (e - 1) + 589"
    using DayFromYear_bounds(2) [of "1969 + e"] by simp
  then have lo: "DayFromYear (1969 + e) \<le> d"
    using e by simp
  have "146097 * (e + 2) - 506 \<le> 400 * DayFromYear (1972 + e)"
    using DayFromYear_bounds(1) [of "1972 + e"] by simp
  then have hi: "d < DayFromYear (1972 + e)"
    using e by simp
  have Y: "YearFromDay d = (if DayFromYear (1971 + e) \<le> d then 1971 + e
      else if DayFromYear (1970 + e) \<le> d then 1970 + e else 1969 + e)"
    by (simp add: YearFromDay_def e_def Let_def)
  show "DayFromYear (YearFromDay d) \<le> d"
    unfolding Y using lo by simp
  show "d < DayFromYear (YearFromDay d + 1)"
    unfolding Y using hi by simp
qed

lemma Day_range:
  assumes "validTime t"
  shows "- 100000000 \<le> Day t" "Day t \<le> 100000000"
proof -
  define d where "d = t div 86400000"
  have d: "86400000 * d \<le> t" "t < 86400000 * d + 86400000"
    unfolding d_def by simp_all
  have D: "Day t = d" by (simp add: Day_def msPerDay_def d_def)
  show "- 100000000 \<le> Day t" "Day t \<le> 100000000"
    unfolding D using d assms by (simp_all add: validTime_def)
qed

lemma YearFromTime_range:
  assumes "validTime t"
  shows "- 271821 \<le> YearFromTime t" "YearFromTime t \<le> 275760"
proof -
  define Y where "Y = YearFromTime t"
  have s: "DayFromYear Y \<le> Day t" "Day t < DayFromYear (Y + 1)"
    unfolding Y_def YearFromTime_def by (rule YearFromDay_spec)+
  have b1: "146097 * (Y - 1970) - 506 \<le> 400 * DayFromYear Y"
    by (rule DayFromYear_bounds)
  have b2: "400 * DayFromYear (Y + 1) \<le> 146097 * (Y - 1969) + 589"
    using DayFromYear_bounds(2) [of "Y + 1"] by simp
  show "- 271821 \<le> YearFromTime t" "YearFromTime t \<le> 275760"
    unfolding Y_def [symmetric] using s b1 b2 Day_range [OF assms] by simp_all
qed

lemma monthStart_simps:
  "monthStart leap 0 = 0"
  "monthStart leap 12 = (if leap then 366 else 365)"
  by (simp_all add: monthStart_def)

lemma DayWithinYear_range:
  "0 \<le> DayWithinYear t" "DayWithinYear t < monthStart (isLeapYear (YearFromTime t)) 12"
  using YearFromDay_spec [of "Day t"] DayFromYear_step [of "YearFromTime t"]
  by (simp_all add: DayWithinYear_def YearFromTime_def monthStart_simps)

lemma monthOfDay_le: "monthOfDay leap d k \<le> k"
  by (induction k) auto

lemma monthOfDay_lower: "0 \<le> d \<Longrightarrow> monthStart leap (monthOfDay leap d k) \<le> d"
  by (induction k) (auto simp add: monthStart_simps)

lemma monthOfDay_upper:
  "d < monthStart leap (Suc k) \<Longrightarrow> d < monthStart leap (Suc (monthOfDay leap d k))"
  by (induction k) auto

lemma monthStart_diff:
  assumes "m < 12"
  shows "monthStart leap (Suc m) - monthStart leap m \<le> 31"
proof (cases "m < 6")
  case True
  then have "m = 0 \<or> m = 1 \<or> m = 2 \<or> m = 3 \<or> m = 4 \<or> m = 5" by linarith
  then show ?thesis
    by (elim disjE) (simp_all add: monthStart_def)
next
  case False
  then have "m = 6 \<or> m = 7 \<or> m = 8 \<or> m = 9 \<or> m = 10 \<or> m = 11"
    using assms by linarith
  then show ?thesis
    by (elim disjE) (simp_all add: monthStart_def)
qed

lemma MonthFromTime_le: "MonthFromTime t \<le> 11"
  by (simp add: MonthFromTime_def monthOfDay_le)

lemma DateFromTime_range:
  "1 \<le> DateFromTime t"
  "DateFromTime t \<le> monthStart (isLeapYear (YearFromTime t)) (Suc (MonthFromTime t))
      - monthStart (isLeapYear (YearFromTime t)) (MonthFromTime t)"
  "DateFromTime t \<le> 31"
proof -
  define leap where "leap = isLeapYear (YearFromTime t)"
  define d where "d = DayWithinYear t"
  have d: "0 \<le> d" "d < monthStart leap (Suc 11)"
    using DayWithinYear_range [of t] by (simp_all add: d_def leap_def)
  have M: "MonthFromTime t = monthOfDay leap d 11"
    by (simp add: MonthFromTime_def d_def leap_def)
  have lo: "monthStart leap (MonthFromTime t) \<le> d"
    unfolding M using d(1) by (rule monthOfDay_lower)
  have hi: "d < monthStart leap (Suc (MonthFromTime t))"
    unfolding M using d(2) by (rule monthOfDay_upper)
  have D: "DateFromTime t = d - monthStart leap (MonthFromTime t) + 1"
    by (simp add: DateFromTime_def d_def leap_def)
  show "1 \<le> DateFromTime t" unfolding D using lo by simp
  show a: "DateFromTime t \<le> monthStart (isLeapYear (YearFromTime t)) (Suc (MonthFromTime t))
      - monthStart (isLeapYear (YearFromTime t)) (MonthFromTime t)"
    unfolding D leap_def [symmetric] using hi by simp
  show "DateFromTime t \<le> 31"
    using a monthStart_diff [of "MonthFromTime t" "isLeapYear (YearFromTime t)"] MonthFromTime_le [of t]
    by simp
qed

lemma TimeWithinDay_range: "0 \<le> TimeWithinDay t" "TimeWithinDay t < 86400000"
  by (simp_all add: TimeWithinDay_def msPerDay_def)

lemma time_fields:
  "0 \<le> HourFromTime t" "HourFromTime t \<le> 23"
  "0 \<le> MinFromTime t" "MinFromTime t \<le> 59"
  "0 \<le> SecFromTime t" "SecFromTime t \<le> 59"
  "0 \<le> msFromTime t" "msFromTime t \<le> 999"
proof -
  define w where "w = TimeWithinDay t"
  have w: "0 \<le> w" "w < 86400000" using TimeWithinDay_range [of t] by (simp_all add: w_def)
  define h where "h = w div 3600000"
  have h: "3600000 * h \<le> w" "w < 3600000 * h + 3600000" unfolding h_def by simp_all
  show "0 \<le> HourFromTime t" "HourFromTime t \<le> 23"
    unfolding HourFromTime_def w_def [symmetric] h_def [symmetric] using w h by simp_all
  show "0 \<le> MinFromTime t" "MinFromTime t \<le> 59"
    "0 \<le> SecFromTime t" "SecFromTime t \<le> 59"
    "0 \<le> msFromTime t" "msFromTime t \<le> 999"
    by (simp_all add: MinFromTime_def SecFromTime_def msFromTime_def)
qed

lemma MakeTime_fields:
  "MakeTime (HourFromTime t) (MinFromTime t) (SecFromTime t) (msFromTime t) = TimeWithinDay t"
proof -
  define w where "w = TimeWithinDay t"
  define a where "a = w div 1000"
  define b where "b = a div 60"
  have 1: "w = 1000 * a + w mod 1000" unfolding a_def by simp
  have 2: "a = 60 * b + a mod 60" unfolding b_def by simp
  have 3: "b = 60 * (b div 60) + b mod 60" by simp
  have e1: "w div 60000 = b" unfolding b_def a_def by (simp add: zdiv_zmult2_eq)
  have e2: "w div 3600000 = b div 60" unfolding b_def a_def by (simp add: zdiv_zmult2_eq)
  have "MakeTime (HourFromTime t) (MinFromTime t) (SecFromTime t) (msFromTime t)
      = (b div 60) * 3600000 + (b mod 60) * 60000 + (a mod 60) * 1000 + w mod 1000"
    unfolding MakeTime_def HourFromTime_def MinFromTime_def SecFromTime_def msFromTime_def
      w_def [symmetric] e1 e2 a_def [symmetric] ..
  also have "\<dots> = w"
    using 1 2 3 by linarith
  finally show ?thesis unfolding w_def .
qed

lemma MakeDay_fields:
  "MakeDay (YearFromTime t) (MonthFromTime t) (DateFromTime t) = Day t"
  by (simp add: MakeDay_def DateFromTime_def DayWithinYear_def)

lemma MakeDate_fields:
  "MakeDate (MakeDay (YearFromTime t) (MonthFromTime t) (DateFromTime t))
     (MakeTime (HourFromTime t) (MinFromTime t) (SecFromTime t) (msFromTime t)) = t"
  unfolding MakeDay_fields MakeTime_fields
  by (simp add: MakeDate_def Day_def TimeWithinDay_def)

subsection \<open>Reading back what toISOString writes\<close>

lemma digits_Suc_Cons:
  "0 < b \<Longrightarrow> \<exists>d cs. d < b \<and> digits b (Suc k) n = digitChar d # cs"
proof (induction k arbitrary: n)
  case 0
  then show ?case by (auto intro: exI [of _ "n mod b"])
next
  case (Suc k)
  from Suc.IH [OF Suc.prems, of "n div b"] obtain d cs where
    "d < b" "digits b (Suc k) (n div b) = digitChar d # cs" by blast
  then show ?case by auto
qed

lemma digits_Cons:
  assumes "0 < b" "0 < k"
  shows "\<exists>d cs. d < b \<and> digits b k n = digitChar d # cs"
proof -
  obtain j where "k = Suc j" using assms(2) by (cases k) auto
  then show ?thesis using digits_Suc_Cons [OF assms(1)] by simp
qed

lemma digitChar_not_sign:
  assumes "d < 10"
  shows "digitChar d \<noteq> CHR ''+'' \<and> digitChar d \<noteq> CHR ''-''"
proof -
  have "of_char (digitChar d) = 48 + d" using assms by (simp add: digitChar_def)
  then show ?thesis using assms by auto
qed

lemma readYear_yearString:
  assumes "- 1000000 < y" "y < 1000000"
  shows "readYear (yearString y @ rest) = Some (y, rest)"
proof (cases "0 \<le> y \<and> y \<le> 9999")
  case True
  obtain d cs where d: "d < 10" "digits 10 4 (nat y) = digitChar d # cs"
    using digits_Cons [of 10 4 "nat y"] by auto
  have n: "nat y < 10 ^ 4" using True by (simp add: nat_less_iff)
  have "readYear (digits 10 4 (nat y) @ rest) = Some (int (nat y), rest)"
    using readDigits_digits [OF n, of rest] d digitChar_not_sign [OF d(1)]
    by (simp add: readYear_def)
  then show ?thesis using True by (simp add: yearString_def)
next
  case False
  have n: "nat \<bar>y\<bar> < 10 ^ 6" using assms by simp
  show ?thesis
  proof (cases "y < 0")
    case True
    then show ?thesis using False readDigits_digits [OF n, of rest]
      by (simp add: yearString_def readYear_def)
  next
    case False
    then show ?thesis using \<open>\<not> (0 \<le> y \<and> y \<le> 9999)\<close> readDigits_digits [OF n, of rest]
      by (simp add: yearString_def readYear_def)
  qed
qed

lemma parseISO_toISOString:
  assumes "validTime t"
  shows "toISOString t = Inr s \<Longrightarrow> parseISO s = Some t"
proof -
  assume s: "toISOString t = Inr s"
  define Y where "Y = YearFromTime t"
  define M where "M = MonthFromTime t"
  define D where "D = DateFromTime t"
  define h where "h = HourFromTime t"
  define mi where "mi = MinFromTime t"
  define sec where "sec = SecFromTime t"
  define ms where "ms = msFromTime t"
  have Y: "- 1000000 < Y" "Y < 1000000"
    using YearFromTime_range [OF assms] by (simp_all add: Y_def)
  have M: "Suc M < 10 ^ 2" "M \<le> 11" using MonthFromTime_le [of t] by (simp_all add: M_def)
  have D: "1 \<le> D" "D \<le> 31" "D \<le> monthStart (isLeapYear Y) (Suc M) - monthStart (isLeapYear Y) M"
    using DateFromTime_range [of t] by (simp_all add: D_def Y_def M_def)
  have F: "0 \<le> h" "h \<le> 23" "0 \<le> mi" "mi \<le> 59" "0 \<le> sec" "sec \<le> 59" "0 \<le> ms" "ms \<le> 999"
    using time_fields [of t] by (simp_all add: h_def mi_def sec_def ms_def)
  have n: "nat D < 10 ^ 2" "nat h < 10 ^ 2" "nat mi < 10 ^ 2" "nat sec < 10 ^ 2" "nat ms < 10 ^ 3"
    using D F by simp_all
  have T: "MakeDate (MakeDay Y M D) (MakeTime h mi sec ms) = t"
    unfolding Y_def M_def D_def h_def mi_def sec_def ms_def by (rule MakeDate_fields)
  have s': "s = yearString Y @ CHR ''-'' # digits 10 2 (Suc M) @ CHR ''-'' # digits 10 2 (nat D)
      @ CHR ''T'' # digits 10 2 (nat h) @ CHR '':'' # digits 10 2 (nat mi)
      @ CHR '':'' # digits 10 2 (nat sec) @ CHR ''.'' # digits 10 3 (nat ms) @ ''Z''"
    using s assms by (simp add: toISOString_def Y_def M_def D_def h_def mi_def sec_def ms_def)
  have i: "0 \<le> D" "0 \<le> h" "0 \<le> mi" "0 \<le> sec" "0 \<le> ms"
    using D F by simp_all
  have c: "Suc 0 \<le> nat D" "nat h \<le> 23" "nat mi \<le> 59" "nat sec \<le> 59"
    using D F by (simp_all add: nat_le_iff le_nat_iff)
  have P: "parseISO s =
      (if 1 \<le> Suc M \<and> Suc M \<le> 12 \<and> 1 \<le> nat D
          \<and> int (nat D) \<le> monthStart (isLeapYear Y) (Suc M) - monthStart (isLeapYear Y) (Suc M - 1)
          \<and> nat h \<le> 23 \<and> nat mi \<le> 59 \<and> nat sec \<le> 59
       then
         (let t = MakeDate (MakeDay Y (Suc M - 1) (int (nat D)))
                    (MakeTime (int (nat h)) (int (nat mi)) (int (nat sec)) (int (nat ms)))
          in if validTime t then Some t else None)
       else None)"
    unfolding s' parseISO_def
    by (simp only: readYear_yearString [OF Y] readDigits_digits [OF M(1)] readDigits_digits [OF n(1)]
        readDigits_digits [OF n(2)] readDigits_digits [OF n(3)] readDigits_digits [OF n(4)]
        readDigits_digits [OF n(5)] expect_Cons bind.bind_lunit prod.case append_Cons append_Nil
        simp_thms)
  show ?thesis
    unfolding P using i c T D(3) M(2) assms by simp
qed

subsection \<open>Base64\<close>

lemma unbase64_b64char: "n < 64 \<Longrightarrow> unbase64 (b64char n) = Some n"
  by (auto simp add: unbase64_def b64char_def Let_def)

lemma b64char_not_pad: "n < 64 \<Longrightarrow> (b64char n = CHR ''='') = False"
  using unbase64_b64char [of n] by (auto simp add: unbase64_def)

lemma sextet_bounds:
  fixes a b :: nat
  shows "a < 256 \<Longrightarrow> a div 4 < 64"
    and "b < 256 \<Longrightarrow> (a mod 4) * 16 + b div 16 < 64"
    and "(a mod 4) * 16 < 64"
    and "b < 256 \<Longrightarrow> (a mod 16) * 4 + b div 64 < 64"
    and "(a mod 16) * 4 < 64"
    and "a mod 64 < 64"
proof -
  have m4: "a mod 4 < 4" and m16: "a mod 16 < 16" by simp_all
  show "a < 256 \<Longrightarrow> a div 4 < 64" by simp
  show "(a mod 4) * 16 < 64" using m4 by linarith
  show "(a mod 16) * 4 < 64" using m16 by linarith
  show "a mod 64 < 64" by simp
  show "(a mod 4) * 16 + b div 16 < 64" if "b < 256"
  proof -
    have "b div 16 < 16" using that by simp
    then show ?thesis using m4 by linarith
  qed
  show "(a mod 16) * 4 + b div 64 < 64" if "b < 256"
  proof -
    have "b div 64 < 4" using that by simp
    then show ?thesis using m16 by linarith
  qed
qed

lemma base64_decode_encode_bytes:
  "list_all (\<lambda>b. b < 256) bs \<Longrightarrow>
   base64_decode_sextets (List.map_filter unbase64
     (takeWhile (\<lambda>c. c \<noteq> CHR ''='') (base64_encode_bytes bs))) = bs"
proof (induction bs rule: base64_encode_bytes.induct)
  case 1
  then show ?case by (simp add: map_filter_simps)
next
  case (2 a)
  then show ?case
    by (simp add: map_filter_simps b64char_not_pad unbase64_b64char sextet_bounds)
next
  case (3 a b)
  then have "a < 256" "b < 256" by simp_all
  then show ?case
    by (simp add: map_filter_simps b64char_not_pad unbase64_b64char sextet_bounds)
next
  case (4 a b c r)
  then have "a < 256" "b < 256" "c < 256" "list_all (\<lambda>b. b < 256) r" by simp_all
  then show ?case using "4.IH"
    by (simp add: map_filter_simps b64char_not_pad unbase64_b64char sextet_bounds)
qed

lemma base64_decode_encode: "base64_decode (base64_encode s) = s"
proof -
  have "list_all (\<lambda>b. b < 256) (map (of_char :: char \<Rightarrow> nat) s)"
    by (simp add: list_all_iff)
  then show ?thesis
    by (simp add: base64_decode_def base64_encode_def base64_decode_encode_bytes comp_def)
qed

subsection \<open>The codec\<close>

lemma bar_not_digit: "0 < b \<Longrightarrow> b \<le> 16 \<Longrightarrow> CHR ''|'' \<notin> set (digits b k n)"
proof (induction k arbitrary: n)
  case 0
  then show ?case by simp
next
  case (Suc k)
  have "n mod b < 16" using Suc.prems by (meson mod_less_divisor less_le_trans)
  then have "digitValue (digitChar (n mod b)) = Some (n mod b)" by (rule digitValue_digitChar)
  moreover have "digitValue CHR ''|'' = None" by (simp add: digitValue_def digitOfUnit_def)
  ultimately have "digitChar (n mod b) \<noteq> CHR ''|''" by auto
  then show ?case using Suc by simp
qed

lemma bar_not_in_iso: "toISOString t = Inr s \<Longrightarrow> CHR ''|'' \<notin> set s \<and> s \<noteq> []"
  by (auto simp add: toISOString_def yearString_def bar_not_digit split: if_splits)

lemma split_no_sep: "sep \<notin> set s \<Longrightarrow> split sep s = [s]"
  by (induction s) auto

lemma split_at_sep: "sep \<notin> set a \<Longrightarrow> split sep (a @ sep # b) = a # split sep b"
  by (induction a) auto

lemma isHex24_toHexString: "isHex24 (toHexString w)"
  by (simp add: isHex24_def toHexString_def all_digits)

lemma isValid_toHexString: "ObjectId_isValid host (toHexString w)"
  by (simp add: ObjectId_isValid_def isHex24_toHexString)

lemma new_ObjectId_toHexString: "new_ObjectId host (toHexString w) = Inr w"
proof -
  have "unat w < 2 ^ 96" using unsigned_less [of w, where ?'a = nat] by simp
  then have "unat w < 16 ^ 24" by simp
  then have "radixValue 16 (digits 16 24 (unat w)) = unat w"
    by (simp add: radixValue_digits)
  then show ?thesis
    using isHex24_toHexString [of w] by (simp add: new_ObjectId_def toHexString_def)
qed

lemma toISOString_valid: "validTime t \<Longrightarrow> \<exists>s. toISOString t = Inr s"
  by (simp add: toISOString_def)

lemma encodeCursor_valid: "validTime t \<Longrightarrow> \<exists>token. encodeCursor t i = Inr token"
  by (simp add: encodeCursor_def toISOString_def)

lemma encodeCursor_Inr_valid: "encodeCursor t i = Inr token \<Longrightarrow> validTime t"
  by (simp add: encodeCursor_def toISOString_def split: if_splits)

lemma Date_parse_toISOString:
  "validTime t \<Longrightarrow> toISOString t = Inr s \<Longrightarrow> Date_parse other s = Some t"
  by (simp add: Date_parse_def parseISO_toISOString)

lemma bufferText_units: "bufferText host (QString (units token)) = Inr (base64_decode token)"
proof -
  have "list_all (\<lambda>u. u < 256) (units token)"
    by (simp add: units_def list_all_iff)
  moreover have "map char_of (units token) = token"
    by (simp add: units_def comp_def)
  ultimately show ?thesis by (simp add: bufferText_def)
qed

lemma decodeCursor_try_encodeCursor:
  assumes "encodeCursor t i = Inr token"
  shows "decodeCursor_try host (QString (units token)) = Inr (t, toHexString i)"
proof -
  have v: "validTime t" using assms by (rule encodeCursor_Inr_valid)
  then obtain s where s: "toISOString t = Inr s" using toISOString_valid by blast
  have tok: "token = base64_encode (s @ CHR ''|'' # toHexString i)"
    using assms s by (simp add: encodeCursor_def)
  have nobar: "CHR ''|'' \<notin> set s" "s \<noteq> []" using bar_not_in_iso [OF s] by simp_all
  have nobar': "CHR ''|'' \<notin> set (toHexString i)"
    by (simp add: toHexString_def bar_not_digit)
  have ne: "toHexString i \<noteq> []"
    using isHex24_toHexString [of i] by (auto simp add: isHex24_def)
  have sp: "split CHR ''|'' (s @ CHR ''|'' # toHexString i) = [s, toHexString i]"
    using nobar nobar' by (simp add: split_at_sep split_no_sep)
  show ?thesis
    unfolding decodeCursor_try_def bufferText_units tok base64_decode_encode sum.case sp
    using nobar(2) ne Date_parse_toISOString [OF v s, of "dateOther host"]
      isValid_toHexString [of host i]
    by simp
qed

lemma decodeCursor_encodeCursor:
  "encodeCursor t i = Inr token \<Longrightarrow>
   decodeCursor host (QString (units token)) = Inr (t, toHexString i)"
  by (simp add: decodeCursor_def decodeCursor_try_encodeCursor)

lemma encodeCursor_inj:
  assumes "encodeCursor t i = Inr token" "encodeCursor t' i' = Inr token"
  shows "t = t' \<and> i = i'"
proof -
  have "Inr (t, toHexString i) = (Inr (t', toHexString i') :: error + (int \<times> string))"
    using decodeCursor_encodeCursor [OF assms(1), of host]
      decodeCursor_encodeCursor [OF assms(2), of host] by simp
  then have e: "t = t'" "toHexString i = toHexString i'" by simp_all
  have "new_ObjectId host (toHexString i) = new_ObjectId host (toHexString i')"
    using e(2) by (rule arg_cong)
  then have "i = i'"
    by (simp only: new_ObjectId_toHexString sum.inject)
  then show ?thesis using e(1) by simp
qed

subsection \<open>Numbers\<close>

lemma bitlen_le: "n < 2 ^ k \<Longrightarrow> bitlen n \<le> k"
proof (induction k arbitrary: n)
  case 0
  then have "n = 0" by simp
  then show ?case by (subst bitlen.simps) simp
next
  case (Suc k)
  then have "n div 2 < 2 ^ k" by simp
  then have "bitlen (n div 2) \<le> k" by (rule Suc.IH)
  then show ?case by (subst bitlen.simps) simp
qed

lemma toNumber_exact: "\<bar>i\<bar> < 2 ^ 53 \<Longrightarrow> toNumber i = Finite i"
proof -
  assume a: "\<bar>i\<bar> < 2 ^ 53"
  then have "nat \<bar>i\<bar> < 2 ^ 53" by (simp add: nat_less_iff)
  then have "bitlen (nat \<bar>i\<bar>) \<le> 53" by (rule bitlen_le)
  then show ?thesis by (simp add: toNumber_def roundToDouble_def)
qed

lemma toNumber_sign:
  "0 \<le> i \<Longrightarrow> \<not> negative (toNumber i)"
  by (simp add: toNumber_def negative_def split: option.splits)

lemma plusOne_Finite: "- 1 \<le> k \<Longrightarrow> k \<le> 50 \<Longrightarrow> plusOne (Finite k) = Finite (k + 1)"
  by (simp add: plusOne_def toNumber_exact)

lemma find_posts_Finite:
  "0 \<le> k \<Longrightarrow> k \<le> 2147483647 \<Longrightarrow>
   find_posts host db q (Finite k) = Inr (limit_docs k (matching db q))"
  by (simp add: find_posts_def)

subsection \<open>The page size\<close>

lemma min50_simps [simp]:
  "min50 NaN = NaN" "min50 (Finite n) = Finite (min n 50)"
  "min50 PosInfinity = Finite 50" "min50 NegInfinity = NegInfinity"
  by (simp_all add: min50_def)

lemma pageLimit_None: "pageLimit None = Inr (Finite 10)"
  by (simp add: pageLimit_def)

lemma pageLimit_Some:
  "toStringQ v = Inr s \<Longrightarrow>
   pageLimit (Some v)
     = Inr (min50 (if parseInt s = NaN \<or> parseInt s = Finite 0 then Finite 10 else parseInt s))"
  by (simp add: pageLimit_def)

lemma pageLimit_throws: "toStringQ v = Inl e \<Longrightarrow> pageLimit (Some v) = Inl e"
  by (simp add: pageLimit_def)

lemma pageLimit_cases:
  assumes "pageLimit l = Inr x"
  shows "x = NegInfinity \<or> (\<exists>k. x = Finite k \<and> k \<le> 50 \<and> k \<noteq> 0)"
proof -
  have m: "min50 (if y = NaN \<or> y = Finite 0 then Finite 10 else y) = NegInfinity
      \<or> (\<exists>k. min50 (if y = NaN \<or> y = Finite 0 then Finite 10 else y) = Finite k
            \<and> k \<le> 50 \<and> k \<noteq> 0)" for y
    by (cases y) (auto simp add: min_def)
  show ?thesis
  proof (cases l)
    case None
    then show ?thesis using assms by (auto simp add: pageLimit_None)
  next
    case (Some v)
    show ?thesis
    proof (cases "toStringQ v")
      case (Inl e)
      then show ?thesis using assms Some by (simp add: pageLimit_throws)
    next
      case (Inr s)
      then show ?thesis using assms Some m [of "parseInt s"] by (auto simp add: pageLimit_Some)
    qed
  qed
qed

lemma pageLimit_nonnegative:
  assumes "toStringQ v = Inr s" "\<not> negative (parseInt s)"
  shows "\<exists>k. pageLimit (Some v) = Inr (Finite k) \<and> 1 \<le> k \<and> k \<le> 50"
  using assms by (cases "parseInt s") (auto simp add: pageLimit_Some negative_def min_def)

subsection \<open>The route on a finite page size\<close>

lemma get_api_posts_Finite:
  assumes L: "pageLimit (query_limit req) = Inr (Finite k)" and lo: "- 1 \<le> k"
    and Q: "cursorQuery host (query_after req) = Inr q"
  shows "get_api_posts host db req =
     (let found = limit_docs (k + 1) (matching db q);
          more = (k < int (length found));
          sliced = (if more then butlast found else found)
      in case (if more \<and> sliced \<noteq> []
               then (case encodeCursor (createdAt (last sliced)) (post_id (last sliced)) of
                       Inl e \<Rightarrow> Inl e | Inr token \<Rightarrow> Inr (Some token))
               else Inr None) of
           Inl e \<Rightarrow> \<lparr> response = internalError, finds = [(q, Finite (k + 1))] \<rparr>
         | Inr cur \<Rightarrow>
             \<lparr> response = Ok \<lparr> posts = map transformPost sliced,
                               pagination = \<lparr> nextCursor = cur, hasMore = more,
                                              limit = Finite k,
                                              page_count = length sliced \<rparr> \<rparr>,
               finds = [(q, Finite (k + 1))] \<rparr>)"
proof -
  have hi: "k \<le> 50" using pageLimit_cases [OF L] by auto
  have p: "plusOne (Finite k) = Finite (k + 1)" using lo hi by (rule plusOne_Finite)
  have f: "find_posts host db q (Finite (k + 1)) = Inr (limit_docs (k + 1) (matching db q))"
    using lo hi by (intro find_posts_Finite) simp_all
  show ?thesis
    unfolding get_api_posts_def L Q p sum.case f
    by (simp add: exceeds_def Let_def)
qed

lemma page_shape:
  assumes L: "pageLimit (query_limit req) = Inr (Finite k)" and k: "1 \<le> k"
    and Q: "cursorQuery host (query_after req) = Inr q"
  shows "get_api_posts host db req =
     (case (if nat k < length (matching db q)
            then (case encodeCursor (createdAt (matching db q ! (nat k - 1)))
                         (post_id (matching db q ! (nat k - 1))) of
                    Inl e \<Rightarrow> Inl e | Inr token \<Rightarrow> Inr (Some token))
            else Inr None) of
        Inl e \<Rightarrow> \<lparr> response = internalError, finds = [(q, Finite (k + 1))] \<rparr>
      | Inr cur \<Rightarrow>
          \<lparr> response = Ok \<lparr> posts = map transformPost (take (nat k) (matching db q)),
                            pagination = \<lparr> nextCursor = cur,
                                           hasMore = (nat k < length (matching db q)),
                                           limit = Finite k,
                                           page_count = length (take (nat k) (matching db q)) \<rparr> \<rparr>,
            finds = [(q, Finite (k + 1))] \<rparr>)"
proof -
  define M where "M = matching db q"
  define n where "n = nat k"
  have n: "0 < n" "k = int n" using k by (simp_all add: n_def)
  have found: "limit_docs (k + 1) M = take (Suc n) M"
    using k by (simp add: limit_docs_def n_def nat_add_distrib)
  have lo: "- 1 \<le> k" using k by simp
  show ?thesis
  proof (cases "n < length M")
    case True
    then have len: "length (take (Suc n) M) = Suc n" by simp
    have b: "butlast (take (Suc n) M) = take n M"
      using True by (simp add: butlast_take)
    have ne: "take n M \<noteq> []" using True n(1) by auto
    have "last (take n M) = take n M ! (length (take n M) - 1)"
      using ne by (rule last_conv_nth)
    also have "\<dots> = M ! (n - 1)" using True n(1) by simp
    finally have l: "last (take n M) = M ! (n - 1)" .
    show ?thesis
      unfolding get_api_posts_Finite [OF L lo Q] M_def [symmetric] found Let_def len
      unfolding n_def [symmetric] n(2)
      using True ne by (simp add: b l split: sum.splits)
  next
    case False
    then have t: "take (Suc n) M = M" "take n M = M" by simp_all
    show ?thesis
      unfolding get_api_posts_Finite [OF L lo Q] M_def [symmetric] found Let_def t
      unfolding n_def [symmetric] n(2)
      using False by (simp split: sum.splits)
  qed
qed

subsection \<open>The queries\<close>

lemma matches_live: "matches liveQuery p = (\<not> isDeleted p)"
  by (simp add: matches_def liveQuery_def)

lemma matches_after_fields:
  "matches (afterQuery c i) p
   = (\<not> isDeleted p \<and> (createdAt p < c \<or> (createdAt p = c \<and> post_id p < i)))"
  by (simp add: matches_def afterQuery_def)

lemma matches_after: "matches (afterQuery c i) p = (\<not> isDeleted p \<and> sortKey p < (c, i))"
  by (auto simp add: matches_after_fields sortKey_def less_prod_def)

lemma base64_encode_nonempty: "s \<noteq> [] \<Longrightarrow> base64_encode s \<noteq> []"
  by (cases "map of_char s :: nat list" rule: base64_encode_bytes.cases)
    (simp_all add: base64_encode_def)

lemma encodeCursor_nonempty: "encodeCursor t i = Inr token \<Longrightarrow> token \<noteq> []"
  by (auto simp add: encodeCursor_def base64_encode_nonempty split: sum.splits)

lemma cursorQuery_None: "cursorQuery host None = Inr liveQuery"
  by (simp add: cursorQuery_def liveQuery_def)

lemma cursorQuery_empty: "cursorQuery host (Some (QString [])) = Inr liveQuery"
  by (simp add: cursorQuery_def liveQuery_def truthy_def)

lemma cursorQuery_token:
  assumes "encodeCursor t i = Inr token"
  shows "cursorQuery host (Some (QString (units token))) = Inr (afterQuery t i)"
proof -
  have "units token \<noteq> []" using encodeCursor_nonempty [OF assms] by (simp add: units_def)
  then have "truthy (Some (QString (units token)))" by (simp add: truthy_def)
  then show ?thesis
    by (simp add: cursorQuery_def decodeCursor_encodeCursor [OF assms] new_ObjectId_toHexString
        afterQuery_def)
qed

subsection \<open>The order of the matches\<close>

lemma set_sort_desc [simp]: "set (sort_desc xs) = set xs"
  by (simp add: sort_desc_def)

lemma length_sort_desc [simp]: "length (sort_desc xs) = length xs"
  by (simp add: sort_desc_def)

lemma distinct_sort_desc [simp]: "distinct (sort_desc xs) = distinct xs"
  by (simp add: sort_desc_def)

lemma filter_sort_desc: "filter P (sort_desc xs) = sort_desc (filter P xs)"
  by (simp add: sort_desc_def filter_sort rev_filter [symmetric])

lemma sorted_sort_desc: "sorted_wrt (\<lambda>a b. sortKey b \<le> sortKey a) (sort_desc xs)"
proof -
  have "sorted (map sortKey (sort_key sortKey xs))" by simp
  then have "sorted_wrt (\<lambda>a b. sortKey a \<le> sortKey b) (sort_key sortKey xs)"
    by (simp add: sorted_wrt_map)
  then show ?thesis
    unfolding sort_desc_def sorted_wrt_rev .
qed

lemma sorted_wrt_strict:
  fixes f :: "'a \<Rightarrow> 'b :: linorder"
  shows "sorted_wrt (\<lambda>a b. f b \<le> f a) ys \<Longrightarrow> distinct (map f ys) \<Longrightarrow>
    sorted_wrt (\<lambda>a b. f b < f a) ys"
proof (induction ys)
  case Nil
  then show ?case by simp
next
  case (Cons a ys)
  have "f x < f a" if "x \<in> set ys" for x
  proof -
    have "f x \<le> f a" using Cons.prems(1) that by simp
    moreover have "f x \<in> f ` set ys" using that by (rule imageI)
    moreover have "f a \<notin> f ` set ys" using Cons.prems(2) by simp
    ultimately have "f x \<le> f a" "f x \<noteq> f a" by metis+
    then show ?thesis by simp
  qed
  then show ?case using Cons by simp
qed

lemma strict_sort_desc:
  assumes "distinct (map sortKey xs)"
  shows "sorted_wrt (\<lambda>a b. sortKey b < sortKey a) (sort_desc xs)"
proof -
  have "distinct (map sortKey (sort_key sortKey ys)) = distinct (map sortKey ys)" for ys
    by (induction ys) (simp_all add: distinct_insort_key)
  then have "distinct (map sortKey (sort_key sortKey xs))"
    using assms by simp
  then have d: "distinct (map sortKey (sort_desc xs))"
    by (simp add: sort_desc_def rev_map [symmetric])
  show ?thesis
    using sorted_sort_desc d by (rule sorted_wrt_strict)
qed

lemma filter_below:
  fixes f :: "'a \<Rightarrow> 'b :: linorder"
  shows "sorted_wrt (\<lambda>a b. f b < f a) xs \<Longrightarrow> j < length xs \<Longrightarrow>
    filter (\<lambda>x. f x < f (xs ! j)) xs = drop (Suc j) xs"
proof (induction xs arbitrary: j)
  case Nil
  then show ?case by simp
next
  case (Cons a r)
  show ?case
  proof (cases j)
    case 0
    then show ?thesis using Cons.prems by (simp add: filter_id_conv)
  next
    case (Suc j')
    then have "r ! j' \<in> set r" using Cons.prems by simp
    then have "f (r ! j') < f a" using Cons.prems by simp
    then have "\<not> f a < f (r ! j')" by simp
    then show ?thesis using Suc Cons by simp
  qed
qed

lemma matching_after:
  assumes d: "distinct (map sortKey (filter (\<lambda>p. \<not> isDeleted p) db))"
    and j: "j < length (matching db liveQuery)"
  shows "matching db (afterQuery (createdAt (matching db liveQuery ! j))
                                 (post_id (matching db liveQuery ! j)))
         = drop (Suc j) (matching db liveQuery)"
proof -
  define M where "M = matching db liveQuery"
  have M: "M = sort_desc (filter (\<lambda>p. \<not> isDeleted p) db)"
    by (simp add: M_def matching_def matches_live [abs_def])
  have s: "sorted_wrt (\<lambda>a b. sortKey b < sortKey a) M"
    unfolding M using d by (rule strict_sort_desc)
  have k: "(createdAt (M ! j), post_id (M ! j)) = sortKey (M ! j)"
    by (simp add: sortKey_def)
  have "matches (afterQuery (createdAt (M ! j)) (post_id (M ! j))) x
      = (\<not> isDeleted x \<and> sortKey x < sortKey (M ! j))" for x
    by (simp add: matches_after k)
  then have "filter (matches (afterQuery (createdAt (M ! j)) (post_id (M ! j)))) db
      = filter (\<lambda>x. sortKey x < sortKey (M ! j)) (filter (\<lambda>p. \<not> isDeleted p) db)"
    by (simp add: filter_filter cong: filter_cong)
  then have "matching db (afterQuery (createdAt (M ! j)) (post_id (M ! j)))
      = filter (\<lambda>x. sortKey x < sortKey (M ! j)) M"
    by (simp add: matching_def M filter_sort_desc)
  also have "\<dots> = drop (Suc j) M"
    using s j unfolding M_def [symmetric] by (rule filter_below)
  finally show ?thesis unfolding M_def .
qed

subsection \<open>Page sizes of some texts\<close>

lemma parseInteger_samples:
  "parseInteger (units ''10'') = Some 10"
  "parseInteger (units ''1'') = Some 1"
  "parseInteger (units ''0'') = Some 0"
  "parseInteger (units ''abc'') = None"
  "parseInteger (units ''10000'') = Some 10000"
  "parseInteger (units ''25'') = Some 25"
  "parseInteger (units ''-1'') = Some (- 1)"
  "parseInteger (units ''-5'') = Some (- 5)"
  by (simp_all add: parseInteger_def parseUnsigned_def parseDigits_def unitsValue_def
      isRadixUnit_def digitOfUnit_def isWhiteSpace_def units_def)

lemma parseInt_samples:
  "parseInt (units ''10'') = Finite 10"
  "parseInt (units ''1'') = Finite 1"
  "parseInt (units ''0'') = Finite 0"
  "parseInt (units ''abc'') = NaN"
  "parseInt (units ''10000'') = Finite 10000"
  "parseInt (units ''25'') = Finite 25"
  "parseInt (units ''-1'') = Finite (- 1)"
  "parseInt (units ''-5'') = Finite (- 5)"
  by (simp_all add: parseInt_def parseInteger_samples toNumber_exact)

lemma pageLimit_samples:
  "pageLimit (Some (QString (units ''10''))) = Inr (Finite 10)"
  "pageLimit (Some (QString (units ''1''))) = Inr (Finite 1)"
  "pageLimit (Some (QString (units ''0''))) = Inr (Finite 10)"
  "pageLimit (Some (QString (units ''abc''))) = Inr (Finite 10)"
  "pageLimit (Some (QString (units ''10000''))) = Inr (Finite 50)"
  "pageLimit (Some (QString (units ''25''))) = Inr (Finite 25)"
  "pageLimit (Some (QString (units ''-1''))) = Inr (Finite (- 1))"
  "pageLimit (Some (QString (units ''-5''))) = Inr (Finite (- 5))"
  by (simp_all add: pageLimit_Some parseInt_samples)

subsection \<open>One page\<close>

lemma set_matching: "set (matching db q) \<subseteq> set db"
  by (auto simp add: matching_def)

lemma page_Ok:
  assumes v: "\<forall>p \<in> set db. validTime (createdAt p)"
    and L: "pageLimit (query_limit req) = Inr (Finite k)" and k: "1 \<le> k"
    and Q: "cursorQuery host (query_after req) = Inr q"
  shows "\<exists>pg. get_api_posts host db req
                = \<lparr> response = Ok pg, finds = [(q, Finite (k + 1))] \<rparr>
          \<and> posts pg = map transformPost (take (nat k) (matching db q))
          \<and> hasMore (pagination pg) = (nat k < length (matching db q))
          \<and> limit (pagination pg) = Finite k
          \<and> page_count (pagination pg) = length (posts pg)
          \<and> (if nat k < length (matching db q)
              then \<exists>tok. encodeCursor (createdAt (matching db q ! (nat k - 1)))
                                       (post_id (matching db q ! (nat k - 1))) = Inr tok
                     \<and> nextCursor (pagination pg) = Some tok
              else nextCursor (pagination pg) = None)"
proof (cases "nat k < length (matching db q)")
  case True
  then have "matching db q ! (nat k - 1) \<in> set (matching db q)" by simp
  then have "validTime (createdAt (matching db q ! (nat k - 1)))"
    using v set_matching [of db q] by blast
  then obtain tok where
    "encodeCursor (createdAt (matching db q ! (nat k - 1)))
       (post_id (matching db q ! (nat k - 1))) = Inr tok"
    using encodeCursor_valid by blast
  then show ?thesis
    using True by (simp add: page_shape [OF L k Q])
next
  case False
  then show ?thesis
    by (simp add: page_shape [OF L k Q])
qed

text \<open>A page of a walk: the request carries the token of the record before \<open>off\<close>.\<close>

lemma walk_page:
  assumes d: "distinct (map sortKey (filter (\<lambda>p. \<not> isDeleted p) db))"
    and v: "\<forall>p \<in> set db. validTime (createdAt p)"
    and L: "pageLimit (Some (QString (units lim))) = Inr (Finite k)" and k: "1 \<le> k"
    and c: "(off = 0 \<and> cur = None)
          \<or> (0 < off \<and> off \<le> length (matching db liveQuery)
              \<and> (\<exists>tok. cur = Some tok
                   \<and> encodeCursor (createdAt (matching db liveQuery ! (off - 1)))
                        (post_id (matching db liveQuery ! (off - 1))) = Inr tok))"
  shows "\<exists>pg. response (get_api_posts host db (listing lim cur)) = Ok pg
          \<and> posts pg = map transformPost (take (nat k) (drop off (matching db liveQuery)))
          \<and> hasMore (pagination pg) = (off + nat k < length (matching db liveQuery))
          \<and> limit (pagination pg) = Finite k
          \<and> page_count (pagination pg) = length (posts pg)
          \<and> (if off + nat k < length (matching db liveQuery)
              then \<exists>tok. encodeCursor (createdAt (matching db liveQuery ! (off + nat k - 1)))
                                       (post_id (matching db liveQuery ! (off + nat k - 1)))
                          = Inr tok
                     \<and> nextCursor (pagination pg) = Some tok
              else nextCursor (pagination pg) = None)"
proof -
  define M where "M = matching db liveQuery"
  have "\<exists>q. cursorQuery host (query_after (listing lim cur)) = Inr q \<and> matching db q = drop off M"
    using c
  proof (elim disjE conjE exE)
    assume "off = 0" "cur = None"
    then show ?thesis by (simp add: listing_def cursorQuery_None M_def)
  next
    fix tok
    assume o: "0 < off" "off \<le> length (matching db liveQuery)" and t: "cur = Some tok"
      "encodeCursor (createdAt (matching db liveQuery ! (off - 1)))
         (post_id (matching db liveQuery ! (off - 1))) = Inr tok"
    have "matching db (afterQuery (createdAt (matching db liveQuery ! (off - 1)))
                                  (post_id (matching db liveQuery ! (off - 1))))
        = drop (Suc (off - 1)) (matching db liveQuery)"
      using d by (rule matching_after) (use o in simp)
    then show ?thesis
      using o t by (simp add: listing_def cursorQuery_token [OF t(2)] M_def)
  qed
  then obtain q where q: "cursorQuery host (query_after (listing lim cur)) = Inr q"
    and m: "matching db q = drop off M" by blast
  have L': "pageLimit (query_limit (listing lim cur)) = Inr (Finite k)"
    using L by (simp add: listing_def)
  have n: "off + (nat k - Suc 0) = off + nat k - Suc 0" using k by simp
  from page_Ok [OF v L' k q] obtain pg where
    "get_api_posts host db (listing lim cur) = \<lparr> response = Ok pg, finds = [(q, Finite (k + 1))] \<rparr>"
    "posts pg = map transformPost (take (nat k) (matching db q))"
    "hasMore (pagination pg) = (nat k < length (matching db q))"
    "limit (pagination pg) = Finite k"
    "page_count (pagination pg) = length (posts pg)"
    "if nat k < length (matching db q)
     then \<exists>tok. encodeCursor (createdAt (matching db q ! (nat k - 1)))
                  (post_id (matching db q ! (nat k - 1))) = Inr tok
            \<and> nextCursor (pagination pg) = Some tok
     else nextCursor (pagination pg) = None"
    by blast
  then show ?thesis
    unfolding m M_def [symmetric]
    by (intro exI [of _ pg]) (auto simp add: less_diff_conv n split: if_splits)
qed

subsection \<open>Walks\<close>

lemma distinct_map_imp: "distinct (map f ys) \<Longrightarrow> distinct ys"
  by (simp add: distinct_map)

lemma distinct_sortKey_createdAt: "distinct (map createdAt xs) \<Longrightarrow> distinct (map sortKey xs)"
proof -
  assume "distinct (map createdAt xs)"
  then have "distinct (map fst (map sortKey xs))" by (simp add: sortKey_def comp_def)
  then show ?thesis by (rule distinct_map_imp)
qed

lemma distinct_sortKey_post_id: "distinct (map post_id xs) \<Longrightarrow> distinct (map sortKey xs)"
proof -
  assume "distinct (map post_id xs)"
  then have "distinct (map snd (map sortKey xs))" by (simp add: sortKey_def comp_def)
  then show ?thesis by (rule distinct_map_imp)
qed

lemma matching_all_live:
  "\<forall>p \<in> set db. \<not> isDeleted p \<Longrightarrow> matching db liveQuery = sort_desc db"
  by (simp add: matching_def matches_live [abs_def] filter_id_conv)

lemma distinct_map_sort_desc: "distinct (map g (sort_desc xs)) = distinct (map g xs)"
proof -
  have "distinct (map g (sort_key f ys)) = distinct (map g ys)" for ys and f :: "post \<Rightarrow> int \<times> ObjectId"
  proof (induction ys)
    case Nil
    then show ?case by simp
  next
    case (Cons y ys)
    have "distinct (map g (insort_key f y zs)) = (g y \<notin> g ` set zs \<and> distinct (map g zs))" for zs
      by (induction zs) (auto simp add: set_insort_key)
    then show ?case using Cons by simp
  qed
  then show ?thesis by (simp add: sort_desc_def rev_map [symmetric])
qed

subsection \<open>Sample posts\<close>

lemma seedPost_simps [simp]:
  "post_id (seedPost n t) = word_of_nat n" "createdAt (seedPost n t) = t"
  "isDeleted (seedPost n t) = False"
  by (simp_all add: seedPost_def)

subsection \<open>Rejected cursors\<close>

lemma decodeCursor_Inl: "decodeCursor host cursor = Inl e \<Longrightarrow> e = Error ''Malformed cursor''"
  by (auto simp add: decodeCursor_def split: sum.splits)

lemma decodeCursor_Inr_valid:
  "decodeCursor host cursor = Inr (c, ident) \<Longrightarrow> ObjectId_isValid host ident"
  by (auto simp add: decodeCursor_def decodeCursor_try_def Let_def
      split: sum.splits list.splits if_splits option.splits)

lemma bufferText_empty: "bufferText host (QString []) = Inr []"
  by (simp add: bufferText_def base64_decode_def map_filter_simps)

lemma decodeCursor_empty: "decodeCursor host (QString []) = Inl (Error ''Malformed cursor'')"
  by (simp add: decodeCursor_def decodeCursor_try_def bufferText_empty)

lemma decodeCursor_buffer_fails:
  "bufferText host cursor = Inl e \<Longrightarrow> decodeCursor host cursor = Inl (Error ''Malformed cursor'')"
  by (simp add: decodeCursor_def decodeCursor_try_def)

lemma decodeCursor_no_separator:
  "bufferText host cursor = Inr decoded \<Longrightarrow> CHR ''|'' \<notin> set decoded \<Longrightarrow>
   decodeCursor host cursor = Inl (Error ''Malformed cursor'')"
  by (simp add: decodeCursor_def decodeCursor_try_def split_no_sep)

lemma decodeCursor_bad_date:
  "bufferText host cursor = Inr decoded \<Longrightarrow> split CHR ''|'' decoded = ts # ident # rest \<Longrightarrow>
   Date_parse (dateOther host) ts = None \<Longrightarrow>
   decodeCursor host cursor = Inl (Error ''Malformed cursor'')"
  by (simp add: decodeCursor_def decodeCursor_try_def)

lemma decodeCursor_bad_id:
  "bufferText host cursor = Inr decoded \<Longrightarrow> split CHR ''|'' decoded = ts # ident # rest \<Longrightarrow>
   \<not> ObjectId_isValid host ident \<Longrightarrow>
   decodeCursor host cursor = Inl (Error ''Malformed cursor'')"
  by (simp add: decodeCursor_def decodeCursor_try_def split: option.splits)

lemma cursorQuery_decode_fails:
  "truthy (Some cursor) \<Longrightarrow> decodeCursor host cursor = Inl e \<Longrightarrow>
   cursorQuery host (Some cursor) = Inl (Failure 400 ''Invalid cursor'' ''Malformed cursor'')"
  using decodeCursor_Inl [of host cursor e] by (simp add: cursorQuery_def)

lemma get_api_posts_decode_fails:
  "truthy (Some cursor) \<Longrightarrow> decodeCursor host cursor = Inl e \<Longrightarrow> query_after req = Some cursor \<Longrightarrow>
   pageLimit (query_limit req) = Inr lim \<Longrightarrow>
   get_api_posts host db req
     = \<lparr> response = Failure 400 ''Invalid cursor'' ''Malformed cursor'', finds = [] \<rparr>"
  by (simp add: get_api_posts_def cursorQuery_decode_fails)

lemma finds_decode_fails:
  "truthy (Some cursor) \<Longrightarrow> decodeCursor host cursor = Inl e \<Longrightarrow> query_after req = Some cursor \<Longrightarrow>
   finds (get_api_posts host db req) = []"
  by (simp add: get_api_posts_def cursorQuery_decode_fails split: sum.splits)

lemma encodeCursor_sample:
  "encodeCursor 0 1 = Inr ''MTk3MC0wMS0wMVQwMDowMDowMC4wMDBafDAwMDAwMDAwMDAwMDAwMDAwMDAwMDAwMQ==''"
  by code_simp

lemma toHexString_sample: "toHexString 1 = ''000000000000000000000001''"
  by code_simp

lemma decode_samples:
  "bufferText plainHost (QString (units ''eHg='')) = Inr ''xx''"
  "bufferText plainHost (QString (units ''eHwwMDAwMDAwMDAwMDAwMDAwMDAwMDAwMDE=''))
     = Inr ''x|000000000000000000000001''"
  "bufferText plainHost (QString (units ''MTk3MC0wMS0wMVQwMDowMDowMC4wMDBafHp6''))
     = Inr ''1970-01-01T00:00:00.000Z|zz''"
  unfolding bufferText_units by code_simp+

lemma split_samples:
  "split CHR ''|'' ''x|000000000000000000000001'' = [''x'', ''000000000000000000000001'']"
  "split CHR ''|'' ''1970-01-01T00:00:00.000Z|zz'' = [''1970-01-01T00:00:00.000Z'', ''zz'']"
  by simp_all

lemma reject_samples:
  "Date_parse (dateOther plainHost) ''x'' = None"
  "\<not> ObjectId_isValid plainHost ''zz''"
  "truthy (Some (QString (units ''eHg='')))"
  by (simp_all add: Date_parse_def parseISO_def readYear_def readDigits_def plainHost_def
      ObjectId_isValid_def isHex24_def truthy_def units_def)

subsection \<open>The query of the route\<close>

lemma finds_query:
  "(q, n) \<in> set (finds (get_api_posts host db req)) \<Longrightarrow>
   \<exists>lim. pageLimit (query_limit req) = Inr lim \<and> n = plusOne lim
      \<and> cursorQuery host (query_after req) = Inr q"
  by (auto simp add: get_api_posts_def Let_def split: sum.splits if_splits)

lemma cursorQuery_cases:
  assumes "cursorQuery host cur = Inr q"
  shows "(\<not> truthy cur \<and> q = liveQuery)
    \<or> (\<exists>token c ident i. cur = Some token \<and> truthy cur \<and> decodeCursor host token = Inr (c, ident)
          \<and> new_ObjectId host ident = Inr i \<and> q = afterQuery c i)"
  using assms
  by (auto simp add: cursorQuery_def Let_def liveQuery_def afterQuery_def truthy_def
      split: option.splits if_splits sum.splits prod.splits)

subsection \<open>The liker ids\<close>

lemma transformPost_fields:
  "post_id p = post_id p' \<Longrightarrow> content p = content p' \<Longrightarrow> author p = author p' \<Longrightarrow>
   count (likes p) = count (likes p') \<Longrightarrow> createdAt p = createdAt p' \<Longrightarrow>
   transformPost p = transformPost p'"
  by (simp add: transformPost_def)

lemma holds_withoutLikers: "holds (withoutLikers p) c = holds p c"
  by (cases c) (simp_all add: withoutLikers_def)

lemma withoutLikers_simps [simp]:
  "transformPost (withoutLikers p) = transformPost p"
  "sortKey (withoutLikers p) = sortKey p"
  "matches q (withoutLikers p) = matches q p"
  "createdAt (withoutLikers p) = createdAt p"
  "post_id (withoutLikers p) = post_id p"
proof -
  have h: "holds (withoutLikers p) = holds p"
    by (rule ext) (rule holds_withoutLikers)
  show "matches q (withoutLikers p) = matches q p"
    unfolding matches_def h ..
qed (simp_all add: transformPost_def sortKey_def withoutLikers_def)

lemma insort_key_map_same:
  "(\<And>x. k (w x) = k x) \<Longrightarrow>
   insort_key k (w x) (map w xs) = map w (insort_key k x xs)"
  by (induction xs) simp_all

lemma sort_key_map_same:
  "(\<And>x. k (w x) = k x) \<Longrightarrow> sort_key k (map w xs) = map w (sort_key k xs)"
  by (induction xs) (simp_all add: insort_key_map_same)

lemma matching_withoutLikers:
  "matching (map withoutLikers db) q = map withoutLikers (matching db q)"
proof -
  have "filter (matches q) (map withoutLikers db) = map withoutLikers (filter (matches q) db)"
    by (simp add: filter_map comp_def)
  then show ?thesis
    by (simp add: matching_def sort_desc_def sort_key_map_same rev_map)
qed

lemma find_posts_withoutLikers:
  "find_posts host (map withoutLikers db) q n
   = (case find_posts host db q n of Inl e \<Rightarrow> Inl e | Inr found \<Rightarrow> Inr (map withoutLikers found))"
  by (simp add: find_posts_def matching_withoutLikers limit_docs_def take_map
      split: number.splits sum.splits)

lemma get_api_posts_withoutLikers:
  "get_api_posts host (map withoutLikers db) req = get_api_posts host db req"
proof (cases "pageLimit (query_limit req)")
  case (Inl e)
  then show ?thesis by (simp add: get_api_posts_def)
next
  case L: (Inr lim)
  show ?thesis
  proof (cases "cursorQuery host (query_after req)")
    case (Inl bad)
    then show ?thesis by (simp add: get_api_posts_def L)
  next
    case Q: (Inr q)
    show ?thesis
    proof (cases "find_posts host db q (plusOne lim)")
      case (Inl e)
      then show ?thesis by (simp add: get_api_posts_def L Q find_posts_withoutLikers)
    next
      case F: (Inr found)
      define sliced where
        "sliced = (if exceeds (length found) lim then butlast found else found)"
      have s: "(if exceeds (length found) lim
                then butlast (map withoutLikers found) else map withoutLikers found)
             = map withoutLikers sliced"
        by (simp add: sliced_def map_butlast)
      have l: "sliced \<noteq> [] \<Longrightarrow> last (map withoutLikers sliced) = withoutLikers (last sliced)"
        by (simp add: last_map)
      have m: "map transformPost (map withoutLikers sliced) = map transformPost sliced"
        by (simp add: comp_def)
      show ?thesis
        unfolding get_api_posts_def L Q find_posts_withoutLikers F Let_def sum.case
          length_map s m
        unfolding sliced_def [symmetric]
        by (cases "sliced = []") (simp_all add: l)
    qed
  qed
qed

subsection \<open>Successful responses\<close>

lemma cursorQuery_Inl:
  "cursorQuery host c = Inl r \<Longrightarrow> \<exists>m. r = Failure 400 ''Invalid cursor'' m"
  by (auto simp add: cursorQuery_def Let_def split: option.splits if_splits sum.splits prod.splits)

lemma response_Ok_D:
  assumes "response (get_api_posts host db req) = Ok pg"
  shows "\<exists>q. pageLimit (query_limit req) = Inr (limit (pagination pg))
            \<and> cursorQuery host (query_after req) = Inr q"
proof (cases "pageLimit (query_limit req)")
  case (Inl e)
  then show ?thesis using assms by (simp add: get_api_posts_def internalError_def)
next
  case L: (Inr lim)
  show ?thesis
  proof (cases "cursorQuery host (query_after req)")
    case (Inl bad)
    then show ?thesis
      using assms cursorQuery_Inl [OF Inl] by (auto simp add: get_api_posts_def L)
  next
    case Q: (Inr q)
    then show ?thesis
      using assms
      by (auto simp add: get_api_posts_def L Q Let_def internalError_def split: sum.splits)
  qed
qed

lemma transformPost_simps [simp]:
  "json_createdAt (transformPost p) = createdAt p" "json_id (transformPost p) = post_id p"
  by (simp_all add: transformPost_def)

lemma encodeCursor_sample2:
  "encodeCursor 3000 3 = Inr ''MTk3MC0wMS0wMVQwMDowMDowMy4wMDBafDAwMDAwMDAwMDAwMDAwMDAwMDAwMDAwMw==''"
  by code_simp

lemma matching_samples:
  "matching [] liveQuery = []"
  "matching [seedPost 2 2000, seedPost 3 3000] liveQuery = [seedPost 3 3000, seedPost 2 2000]"
  "matching [seedPost 2 2000, seedPost 3 3000, seedPost 4 4000] liveQuery
     = [seedPost 4 4000, seedPost 3 3000, seedPost 2 2000]"
  by (simp_all add: matching_def matches_live sort_desc_def sortKey_def less_eq_prod_def)

subsection \<open>The page size in the route\<close>

lemma pageLimit_value:
  assumes s: "toStringQ v = Inr s" and n: "\<not> negative (parseInt s)"
  shows "\<exists>k. pageLimit (Some v) = Inr (Finite k) \<and> 1 \<le> k \<and> k \<le> 50
           \<and> (parseInt s = NaN \<or> parseInt s = Finite 0 \<longrightarrow> k = 10)
           \<and> (\<forall>n. parseInt s = Finite n \<and> 1 \<le> n \<longrightarrow> k = min n 50)
           \<and> (parseInt s = PosInfinity \<longrightarrow> k = 50)"
  using n by (cases "parseInt s") (auto simp add: pageLimit_Some [OF s] negative_def min_def)

lemma listing_answered:
  assumes "pageLimit (query_limit req) = Inr (Finite k)" "1 \<le> k"
    and "\<forall>p \<in> set db. validTime (createdAt p)"
    and "cursorQuery host (query_after req) = Inr q"
  shows "\<exists>pg. response (get_api_posts host db req) = Ok pg \<and> limit (pagination pg) = Finite k"
  using page_Ok [OF assms(3) assms(1) assms(2) assms(4)] by auto

lemma pageLimit_own_toString:
  "get_api_posts host db
     \<lparr> query_limit = Some (QObject [(units ''toString'', QString (units ''x''))]),
       query_after = cur \<rparr>
   = \<lparr> response = Failure 500 ''Internal server error'' ''Failed to fetch posts'', finds = [] \<rparr>"
  by (simp add: get_api_posts_def pageLimit_def internalError_def)

section \<open>Properties\<close>

text \<open>
  The statements hold for every host, and for a store that keeps its posts in any order.
  A valid creation time is one that a JavaScript \<open>Date\<close> can hold: on any other,
  \<open>toISOString\<close> throws.
\<close>

subsection \<open>A walk over 25 posts\<close>

text \<open>
  C1. A store holds 25 posts, none deleted, with pairwise distinct, valid creation times.
  It is listed three times with \<open>limit=10\<close>: first without a cursor, then with the
  \<open>nextCursor\<close> of the response before. Each request is answered with a page, and the
  first two responses carry a cursor. The pages hold 10, 10 and 5 posts. Put together
  they are the 25 posts of the store in descending order of creation time, every post
  once and none left out, and the third response has \<open>hasMore = false\<close>.
\<close>

theorem walk_25_posts:
  assumes len: "length db = 25"
    and live: "\<forall>p \<in> set db. \<not> isDeleted p \<and> validTime (createdAt p)"
    and dist: "distinct (map createdAt db)"
  shows "\<exists>pg1 pg2 pg3 c1 c2.
      response (get_api_posts host db (listing ''10'' None)) = Ok pg1
    \<and> nextCursor (pagination pg1) = Some c1
    \<and> response (get_api_posts host db (listing ''10'' (Some c1))) = Ok pg2
    \<and> nextCursor (pagination pg2) = Some c2
    \<and> response (get_api_posts host db (listing ''10'' (Some c2))) = Ok pg3
    \<and> \<not> hasMore (pagination pg3)
    \<and> length (posts pg1) = 10 \<and> length (posts pg2) = 10 \<and> length (posts pg3) = 5
    \<and> posts pg1 @ posts pg2 @ posts pg3 = map transformPost (sort_desc db)
    \<and> sorted_wrt (\<lambda>a b. json_createdAt b < json_createdAt a) (posts pg1 @ posts pg2 @ posts pg3)
    \<and> distinct (posts pg1 @ posts pg2 @ posts pg3)
    \<and> set (posts pg1 @ posts pg2 @ posts pg3) = transformPost ` set db"
proof -
  define M where "M = matching db liveQuery"
  have M: "M = sort_desc db" unfolding M_def using live by (intro matching_all_live) simp
  have lenM: "length M = 25" using len by (simp add: M)
  have d: "distinct (map sortKey (filter (\<lambda>p. \<not> isDeleted p) db))"
    using dist live by (simp add: distinct_sortKey_createdAt filter_id_conv)
  have v: "\<forall>p \<in> set db. validTime (createdAt p)" using live by simp
  have L: "pageLimit (Some (QString (units ''10''))) = Inr (Finite 10)"
    by (rule pageLimit_samples)
  from walk_page [OF d v L, of 0 None host] obtain pg1 c1 where
    p1: "response (get_api_posts host db (listing ''10'' None)) = Ok pg1"
      "posts pg1 = map transformPost (take 10 M)"
      "encodeCursor (createdAt (M ! 9)) (post_id (M ! 9)) = Inr c1"
      "nextCursor (pagination pg1) = Some c1"
    unfolding M_def [symmetric] using lenM by auto
  from walk_page [OF d v L, of 10 "Some c1" host] obtain pg2 c2 where
    p2: "response (get_api_posts host db (listing ''10'' (Some c1))) = Ok pg2"
      "posts pg2 = map transformPost (take 10 (drop 10 M))"
      "encodeCursor (createdAt (M ! 19)) (post_id (M ! 19)) = Inr c2"
      "nextCursor (pagination pg2) = Some c2"
    unfolding M_def [symmetric] using lenM p1(3) by auto
  from walk_page [OF d v L, of 20 "Some c2" host] obtain pg3 where
    p3: "response (get_api_posts host db (listing ''10'' (Some c2))) = Ok pg3"
      "posts pg3 = map transformPost (take 10 (drop 20 M))"
      "\<not> hasMore (pagination pg3)"
    unfolding M_def [symmetric] using lenM p2(3) by auto
  have "take 10 M @ take 10 (drop 10 M) @ take 10 (drop 20 M) = take (10 + (10 + 10)) M"
    by (simp only: take_add drop_drop) simp
  then have cat: "posts pg1 @ posts pg2 @ posts pg3 = map transformPost M"
    using lenM by (simp add: p1(2) p2(2) p3(2) map_append [symmetric] del: map_append)
  have dc: "distinct (map createdAt M)" using dist by (simp add: M distinct_map_sort_desc)
  have "sorted_wrt (\<lambda>a b. createdAt b \<le> createdAt a) M"
    unfolding M using sorted_sort_desc [of db]
    by (rule sorted_wrt_mono_rel [rotated]) (auto simp add: sortKey_def less_eq_prod_def)
  then have "sorted_wrt (\<lambda>a b. createdAt b < createdAt a) M"
    using dc by (rule sorted_wrt_strict)
  then have srt: "sorted_wrt (\<lambda>a b. json_createdAt b < json_createdAt a) (map transformPost M)"
    by (simp add: sorted_wrt_map transformPost_def)
  have "distinct (map json_createdAt (map transformPost M))"
    using dc by (simp add: comp_def transformPost_def)
  then have dst: "distinct (map transformPost M)" by (rule distinct_map_imp)
  show ?thesis
    using p1 p2 p3 cat srt dst lenM
    by (intro exI [of _ pg1] exI [of _ pg2] exI [of _ pg3] exI [of _ c1] exI [of _ c2])
      (simp add: M)
qed

text \<open>An instance: the posts created at the times 0 to 24, stored oldest first.\<close>

theorem walk_25_posts_witness:
  "\<exists>pg1 pg2 pg3 c1 c2.
      response (get_api_posts plainHost (map (\<lambda>n. seedPost n (int n)) [0..<25])
                  (listing ''10'' None)) = Ok pg1
    \<and> nextCursor (pagination pg1) = Some c1
    \<and> response (get_api_posts plainHost (map (\<lambda>n. seedPost n (int n)) [0..<25])
                  (listing ''10'' (Some c1))) = Ok pg2
    \<and> nextCursor (pagination pg2) = Some c2
    \<and> response (get_api_posts plainHost (map (\<lambda>n. seedPost n (int n)) [0..<25])
                  (listing ''10'' (Some c2))) = Ok pg3
    \<and> \<not> hasMore (pagination pg3)
    \<and> length (posts pg1) = 10 \<and> length (posts pg2) = 10 \<and> length (posts pg3) = 5
    \<and> posts pg1 @ posts pg2 @ posts pg3
        = map transformPost (sort_desc (map (\<lambda>n. seedPost n (int n)) [0..<25]))"
proof -
  let ?db = "map (\<lambda>n. seedPost n (int n)) [0..<25]"
  have 1: "length ?db = 25" by simp
  have 2: "\<forall>p \<in> set ?db. \<not> isDeleted p \<and> validTime (createdAt p)"
    by (auto simp add: validTime_def)
  have 3: "distinct (map createdAt ?db)"
    by (simp add: comp_def distinct_map inj_on_def)
  from walk_25_posts [OF 1 2 3, of plainHost] show ?thesis by blast
qed

subsection \<open>The query\<close>

text \<open>
  C2. Every query that the route sends to the store selects no deleted post. For a
  request without a cursor (\<open>after\<close> absent or empty) it selects exactly the posts that
  are not deleted. For a request with a cursor, the cursor has been decoded to a
  position \<open>(c, i)\<close>, and the query selects exactly the posts that are not deleted and
  have \<open>createdAt < c\<close>, or \<open>createdAt = c\<close> and \<open>id < i\<close>. This is neither of the two
  simpler conditions: the query selects a post that \<open>createdAt \<le> c\<close> and \<open>id < i\<close> does
  not, and, unless \<open>i\<close> is the least id, a post that \<open>createdAt < c\<close> does not.
\<close>

theorem query_selects:
  assumes f: "(q, n) \<in> set (finds (get_api_posts host db req))"
  shows "(\<forall>p. matches q p \<longrightarrow> \<not> isDeleted p)
     \<and> (\<not> truthy (query_after req) \<longrightarrow> (\<forall>p. matches q p = (\<not> isDeleted p)))
     \<and> (\<forall>token. query_after req = Some token \<and> truthy (query_after req) \<longrightarrow>
          (\<exists>c ident i. decodeCursor host token = Inr (c, ident) \<and> new_ObjectId host ident = Inr i
             \<and> (\<forall>p. matches q p
                  = (\<not> isDeleted p \<and> (createdAt p < c \<or> (createdAt p = c \<and> post_id p < i))))
             \<and> (\<exists>p. matches q p \<and> \<not> (createdAt p \<le> c \<and> post_id p < i))
             \<and> (0 < i \<longrightarrow> (\<exists>p. matches q p \<and> \<not> createdAt p < c))))"
proof -
  from finds_query [OF f] have a: "cursorQuery host (query_after req) = Inr q" by blast
  from cursorQuery_cases [OF a] consider
    (base) "\<not> truthy (query_after req)" "q = liveQuery"
  | (cursor) token c ident i where "query_after req = Some token" "truthy (query_after req)"
      "decodeCursor host token = Inr (c, ident)" "new_ObjectId host ident = Inr i"
      "q = afterQuery c i"
    by blast
  then show ?thesis
  proof cases
    case base
    then show ?thesis by (auto simp add: matches_live)
  next
    case h: cursor
    define u where "u = \<lparr> user_id = 0, username = [], displayName = [], avatar = None \<rparr>"
    define p1 where "p1 = \<lparr> post_id = i, content = [], author = u,
      likes = \<lparr> count = 0, userIds = [] \<rparr>, createdAt = c - 1, updatedAt = 0, isDeleted = False \<rparr>"
    define p2 where "p2 = \<lparr> post_id = i - 1, content = [], author = u,
      likes = \<lparr> count = 0, userIds = [] \<rparr>, createdAt = c, updatedAt = 0, isDeleted = False \<rparr>"
    have m: "\<forall>p. matches q p
        = (\<not> isDeleted p \<and> (createdAt p < c \<or> (createdAt p = c \<and> post_id p < i)))"
      unfolding h(5) by (simp add: matches_after_fields)
    have e1: "matches q p1 \<and> \<not> (createdAt p1 \<le> c \<and> post_id p1 < i)"
      by (simp add: m p1_def)
    have e2: "0 < i \<Longrightarrow> matches q p2 \<and> \<not> createdAt p2 < c"
    proof -
      assume "0 < i"
      then have "i - 1 < i"
        by (metis linorder_less_linear order_less_irrefl sub_wrap word_le_less_eq word_less_1)
      then show ?thesis by (simp add: m p2_def)
    qed
    show ?thesis
      using h(1-4) m e1 e2 by (intro conjI allI impI) (auto simp del: not_le not_less)
  qed
qed

text \<open>An instance: the request after the position of time 0 and id 1.\<close>

theorem query_selects_witness:
  "finds (get_api_posts plainHost [] (listing ''10''
       (Some ''MTk3MC0wMS0wMVQwMDowMDowMC4wMDBafDAwMDAwMDAwMDAwMDAwMDAwMDAwMDAwMQ=='')))
     = [(afterQuery 0 1, Finite 11)]
   \<and> (\<forall>p. matches (afterQuery 0 1) p
          = (\<not> isDeleted p \<and> (createdAt p < 0 \<or> (createdAt p = 0 \<and> post_id p < 1))))
   \<and> (\<exists>p. matches (afterQuery 0 1) p \<and> \<not> (createdAt p \<le> 0 \<and> post_id p < 1))
   \<and> (\<exists>p. matches (afterQuery 0 1) p \<and> \<not> createdAt p < 0)"
proof -
  let ?tok = "''MTk3MC0wMS0wMVQwMDowMDowMC4wMDBafDAwMDAwMDAwMDAwMDAwMDAwMDAwMDAwMQ==''"
  let ?req = "listing ''10'' (Some ?tok)"
  have d: "decodeCursor plainHost (QString (units ?tok)) = Inr (0, ''000000000000000000000001'')"
    using decodeCursor_encodeCursor [OF encodeCursor_sample, of plainHost]
    by (simp add: toHexString_sample)
  have i: "new_ObjectId plainHost ''000000000000000000000001'' = Inr 1"
    using new_ObjectId_toHexString [of plainHost 1] by (simp add: toHexString_sample)
  have q: "cursorQuery plainHost (query_after ?req) = Inr (afterQuery 0 1)"
    using cursorQuery_token [OF encodeCursor_sample, of plainHost] by (simp add: listing_def)
  have L: "pageLimit (query_limit ?req) = Inr (Finite 10)"
    by (simp add: listing_def pageLimit_samples)
  have f: "finds (get_api_posts plainHost [] ?req) = [(afterQuery 0 1, Finite 11)]"
    by (simp add: page_shape [OF L _ q] matching_def sort_desc_def)
  have t: "query_after ?req = Some (QString (units ?tok))" "truthy (query_after ?req)"
    by (simp_all add: listing_def truthy_def units_def)
  have m: "(afterQuery 0 1, Finite 11) \<in> set (finds (get_api_posts plainHost [] ?req))"
    by (simp add: f)
  from query_selects [OF m] have
    "\<forall>token. query_after ?req = Some token \<and> truthy (query_after ?req) \<longrightarrow>
       (\<exists>c ident i. decodeCursor plainHost token = Inr (c, ident)
          \<and> new_ObjectId plainHost ident = Inr i
          \<and> (\<forall>p. matches (afterQuery 0 1) p
               = (\<not> isDeleted p \<and> (createdAt p < c \<or> (createdAt p = c \<and> post_id p < i))))
          \<and> (\<exists>p. matches (afterQuery 0 1) p \<and> \<not> (createdAt p \<le> c \<and> post_id p < i))
          \<and> (0 < i \<longrightarrow> (\<exists>p. matches (afterQuery 0 1) p \<and> \<not> createdAt p < c)))"
    by blast
  then obtain c ident i where
    r: "decodeCursor plainHost (QString (units ?tok)) = Inr (c, ident)"
      "new_ObjectId plainHost ident = Inr i"
      "\<forall>p. matches (afterQuery 0 1) p
         = (\<not> isDeleted p \<and> (createdAt p < c \<or> (createdAt p = c \<and> post_id p < i)))"
      "\<exists>p. matches (afterQuery 0 1) p \<and> \<not> (createdAt p \<le> c \<and> post_id p < i)"
      "0 < i \<longrightarrow> (\<exists>p. matches (afterQuery 0 1) p \<and> \<not> createdAt p < c)"
    using t by blast
  have c: "c = 0" "ident = ''000000000000000000000001''" using r(1) d by simp_all
  have i1: "i = 1" using r(2) i c by simp
  show ?thesis
    using f r(3-5) unfolding c i1 by simp
qed

subsection \<open>The overfetch on a negative page size\<close>

text \<open>
  C3, at \<open>limit=-1\<close>. The page size is \<open>-1\<close>, since line 88 bounds it from above
  only. The route asks the store for \<open>limit + 1 = 0\<close> records, which the store reads as
  no limit: of a store of three posts all three come back, not at most \<open>limit + 1\<close>. Of
  the empty store exactly \<open>limit + 1 = 0\<close> records come back; the response then has
  \<open>hasMore = true\<close> and a null \<open>nextCursor\<close>, not the cursor of a last retained record.
\<close>

theorem overfetch_negative_limit:
  "pageLimit (Some (QString (units ''-1''))) = Inr (Finite (- 1))
   \<and> finds (get_api_posts plainHost [seedPost 2 2000, seedPost 3 3000, seedPost 4 4000]
             (listing ''-1'' None)) = [(liveQuery, Finite 0)]
   \<and> find_posts plainHost [seedPost 2 2000, seedPost 3 3000, seedPost 4 4000] liveQuery (Finite 0)
       = Inr [seedPost 4 4000, seedPost 3 3000, seedPost 2 2000]
   \<and> find_posts plainHost [] liveQuery (Finite 0) = Inr []
   \<and> response (get_api_posts plainHost [] (listing ''-1'' None))
       = Ok \<lparr> posts = [],
              pagination = \<lparr> nextCursor = None, hasMore = True, limit = Finite (- 1),
                             page_count = 0 \<rparr> \<rparr>"
proof -
  let ?req = "listing ''-1'' None"
  have L: "pageLimit (query_limit ?req) = Inr (Finite (- 1))"
    by (simp add: listing_def pageLimit_samples)
  have Q: "cursorQuery plainHost (query_after ?req) = Inr liveQuery"
    by (simp add: listing_def cursorQuery_None)
  have f: "find_posts host db liveQuery (Finite 0) = Inr (matching db liveQuery)" for host db
    by (simp add: find_posts_def limit_docs_def)
  show ?thesis
    by (simp add: get_api_posts_Finite [OF L _ Q] f matching_samples limit_docs_def
        pageLimit_samples encodeCursor_sample2)
qed

subsection \<open>The cursor codec\<close>

text \<open>
  C4. For every valid creation time and every ObjectId, \<open>encodeCursor\<close> returns a token;
  \<open>decodeCursor\<close> of that token succeeds and returns the creation time and the text of
  the id, of which the constructor makes the id again; and \<open>encodeCursor\<close> returns this
  token for no other creation time or id.
\<close>

theorem decodeCursor_encodeCursor_roundtrip:
  "validTime t \<Longrightarrow>
     (\<exists>token. encodeCursor t i = Inr token
        \<and> decodeCursor host (QString (units token)) = Inr (t, toHexString i)
        \<and> new_ObjectId host (toHexString i) = Inr i
        \<and> (\<forall>t' i'. encodeCursor t' i' = Inr token \<longrightarrow> t' = t \<and> i' = i))"
proof -
  assume "validTime t"
  then obtain token where tok: "encodeCursor t i = Inr token"
    using encodeCursor_valid by blast
  have "decodeCursor host (QString (units token)) = Inr (t, toHexString i)"
    using tok by (rule decodeCursor_encodeCursor)
  moreover have "\<forall>t' i'. encodeCursor t' i' = Inr token \<longrightarrow> t' = t \<and> i' = i"
    using encodeCursor_inj [OF _ tok] by blast
  ultimately show ?thesis
    using tok new_ObjectId_toHexString [of host i] by blast
qed

text \<open>An instance: the time 0 and the id 1.\<close>

theorem decodeCursor_encodeCursor_roundtrip_witness:
  "encodeCursor 0 1 = Inr ''MTk3MC0wMS0wMVQwMDowMDowMC4wMDBafDAwMDAwMDAwMDAwMDAwMDAwMDAwMDAwMQ==''
   \<and> decodeCursor plainHost (QString (units
        ''MTk3MC0wMS0wMVQwMDowMDowMC4wMDBafDAwMDAwMDAwMDAwMDAwMDAwMDAwMDAwMQ==''))
       = Inr (0, ''000000000000000000000001'')
   \<and> new_ObjectId plainHost ''000000000000000000000001'' = Inr 1"
proof -
  have v: "validTime 0" by (simp add: validTime_def)
  from decodeCursor_encodeCursor_roundtrip [OF v, of 1 plainHost]
  show ?thesis by (simp add: encodeCursor_sample toHexString_sample)
qed

subsection \<open>The rejection of a cursor\<close>



subsection \<open>The page size\<close>




subsection \<open>A walk over posts of one creation time\<close>



subsection \<open>The liker ids\<close>

text \<open>
  C8. A post of a response is made of the id, the content, the author, the like count
  and the creation time of the stored post, and of nothing else: two stored posts that
  agree on these five are shown as the same, and the type \<open>post_json\<close> has no field for
  the liker ids. Two stores that differ in the liker ids of their posts only, with the
  like counts equal, get the same response, and the same queries, for every request.
\<close>

theorem response_hides_likers:
  "(post_id p = post_id p' \<and> content p = content p' \<and> author p = author p'
      \<and> count (likes p) = count (likes p') \<and> createdAt p = createdAt p'
     \<longrightarrow> transformPost p = transformPost p')
   \<and> (map withoutLikers db = map withoutLikers db'
     \<longrightarrow> get_api_posts host db req = get_api_posts host db' req)"
proof -
  have "get_api_posts host db req = get_api_posts host db' req"
    if "map withoutLikers db = map withoutLikers db'"
    using get_api_posts_withoutLikers [of host db req]
      get_api_posts_withoutLikers [of host db' req] that by simp
  then show ?thesis using transformPost_fields [of p p'] by blast
qed

text \<open>An instance: one post, liked by the users 8 and 9, or by the users 5 and 6.\<close>

theorem response_hides_likers_witness:
  "seedPost 1 1000 \<lparr> likes := \<lparr> count = 2, userIds = [8, 9] \<rparr> \<rparr>
     \<noteq> seedPost 1 1000 \<lparr> likes := \<lparr> count = 2, userIds = [5, 6] \<rparr> \<rparr>
   \<and> transformPost (seedPost 1 1000 \<lparr> likes := \<lparr> count = 2, userIds = [8, 9] \<rparr> \<rparr>)
     = transformPost (seedPost 1 1000 \<lparr> likes := \<lparr> count = 2, userIds = [5, 6] \<rparr> \<rparr>)
   \<and> get_api_posts plainHost [seedPost 1 1000 \<lparr> likes := \<lparr> count = 2, userIds = [8, 9] \<rparr> \<rparr>]
        (listing ''10'' None)
     = get_api_posts plainHost [seedPost 1 1000 \<lparr> likes := \<lparr> count = 2, userIds = [5, 6] \<rparr> \<rparr>]
        (listing ''10'' None)"
  using response_hides_likers [of "seedPost 1 1000 \<lparr> likes := \<lparr> count = 2, userIds = [8, 9] \<rparr> \<rparr>"
      "seedPost 1 1000 \<lparr> likes := \<lparr> count = 2, userIds = [5, 6] \<rparr> \<rparr>"
      "[seedPost 1 1000 \<lparr> likes := \<lparr> count = 2, userIds = [8, 9] \<rparr> \<rparr>]"
      "[seedPost 1 1000 \<lparr> likes := \<lparr> count = 2, userIds = [5, 6] \<rparr> \<rparr>]"
      plainHost "listing ''10'' None"]
  by (simp add: seedPost_def withoutLikers_def)

subsection \<open>The page on a negative page size\<close>

text \<open>
  C9, at \<open>limit=-1\<close>. Of a store of three posts the response is a page of two posts
  whose \<open>limit\<close> is \<open>-1\<close>: more posts than the limit. Of the empty store the response
  has \<open>hasMore = true\<close>, although no post is left.
\<close>

theorem page_negative_limit:
  "response (get_api_posts plainHost [seedPost 2 2000, seedPost 3 3000, seedPost 4 4000]
       (listing ''-1'' None))
     = Ok \<lparr> posts = [transformPost (seedPost 4 4000), transformPost (seedPost 3 3000)],
            pagination = \<lparr> nextCursor = Some
                ''MTk3MC0wMS0wMVQwMDowMDowMy4wMDBafDAwMDAwMDAwMDAwMDAwMDAwMDAwMDAwMw=='',
              hasMore = True, limit = Finite (- 1), page_count = 2 \<rparr> \<rparr>
   \<and> response (get_api_posts plainHost [] (listing ''-1'' None))
     = Ok \<lparr> posts = [],
            pagination = \<lparr> nextCursor = None, hasMore = True, limit = Finite (- 1),
                           page_count = 0 \<rparr> \<rparr>"
proof -
  let ?req = "listing ''-1'' None"
  have L: "pageLimit (query_limit ?req) = Inr (Finite (- 1))"
    by (simp add: listing_def pageLimit_samples)
  have Q: "cursorQuery plainHost (query_after ?req) = Inr liveQuery"
    by (simp add: listing_def cursorQuery_None)
  show ?thesis
    by (simp add: get_api_posts_Finite [OF L _ Q] matching_samples limit_docs_def
        encodeCursor_sample2)
qed

subsection \<open>The cursor of a page\<close>

text \<open>
  C10. In a successful response whose \<open>limit\<close> is at least 1, \<open>nextCursor\<close> is not null
  if and only if \<open>hasMore\<close> is true. When \<open>hasMore\<close> is true, the page is not empty and
  \<open>nextCursor\<close> is the token that \<open>encodeCursor\<close> makes of the creation time and the id
  of its last post; when \<open>hasMore\<close> is false, \<open>nextCursor\<close> is null.
\<close>

theorem nextCursor_iff_hasMore:
  assumes ok: "response (get_api_posts host db req) = Ok pg"
    and lim: "limit (pagination pg) = Finite k" and k: "1 \<le> k"
  shows "(nextCursor (pagination pg) \<noteq> None) = hasMore (pagination pg)
    \<and> (hasMore (pagination pg) \<longrightarrow>
         posts pg \<noteq> []
         \<and> (\<exists>token. nextCursor (pagination pg) = Some token
               \<and> encodeCursor (json_createdAt (last (posts pg))) (json_id (last (posts pg)))
                   = Inr token))
    \<and> (\<not> hasMore (pagination pg) \<longrightarrow> nextCursor (pagination pg) = None)"
proof -
  from response_Ok_D [OF ok] obtain q where
    L: "pageLimit (query_limit req) = Inr (Finite k)"
    and Q: "cursorQuery host (query_after req) = Inr q"
    unfolding lim by blast
  define M where "M = matching db q"
  show ?thesis
  proof (cases "nat k < length M")
    case True
    have ne: "take (nat k) M \<noteq> []" using True k by auto
    have "last (take (nat k) M) = take (nat k) M ! (length (take (nat k) M) - 1)"
      using ne by (rule last_conv_nth)
    also have "\<dots> = M ! (nat k - 1)" using True k by simp
    finally have l: "last (take (nat k) M) = M ! (nat k - 1)" .
    show ?thesis
    proof (cases "encodeCursor (createdAt (M ! (nat k - 1))) (post_id (M ! (nat k - 1)))")
      case (Inl e)
      then show ?thesis
        using ok True by (simp add: page_shape [OF L k Q] M_def [symmetric] internalError_def)
    next
      case (Inr token)
      then have "pg = \<lparr> posts = map transformPost (take (nat k) M),
                       pagination = \<lparr> nextCursor = Some token, hasMore = True,
                                      limit = Finite k,
                                      page_count = length (take (nat k) M) \<rparr> \<rparr>"
        using ok True by (simp add: page_shape [OF L k Q] M_def [symmetric])
      then show ?thesis
        using ne Inr by (simp add: last_map l)
    qed
  next
    case False
    then have "pg = \<lparr> posts = map transformPost (take (nat k) M),
                     pagination = \<lparr> nextCursor = None, hasMore = False,
                                    limit = Finite k,
                                    page_count = length (take (nat k) M) \<rparr> \<rparr>"
      using ok by (simp add: page_shape [OF L k Q] M_def [symmetric])
    then show ?thesis by simp
  qed
qed

text \<open>An instance: two posts listed with \<open>limit=1\<close>.\<close>

theorem nextCursor_iff_hasMore_witness:
  "response (get_api_posts plainHost [seedPost 2 2000, seedPost 3 3000] (listing ''1'' None))
     = Ok \<lparr> posts = [transformPost (seedPost 3 3000)],
            pagination = \<lparr> nextCursor = Some
                ''MTk3MC0wMS0wMVQwMDowMDowMy4wMDBafDAwMDAwMDAwMDAwMDAwMDAwMDAwMDAwMw=='',
              hasMore = True, limit = Finite 1, page_count = 1 \<rparr> \<rparr>
   \<and> encodeCursor (json_createdAt (transformPost (seedPost 3 3000)))
        (json_id (transformPost (seedPost 3 3000)))
       = Inr ''MTk3MC0wMS0wMVQwMDowMDowMy4wMDBafDAwMDAwMDAwMDAwMDAwMDAwMDAwMDAwMw==''"
proof -
  let ?req = "listing ''1'' None"
  let ?db = "[seedPost 2 2000, seedPost 3 3000]"
  let ?pg = "\<lparr> posts = [transformPost (seedPost 3 3000)],
            pagination = \<lparr> nextCursor = Some
                ''MTk3MC0wMS0wMVQwMDowMDowMy4wMDBafDAwMDAwMDAwMDAwMDAwMDAwMDAwMDAwMw=='',
              hasMore = True, limit = Finite 1, page_count = 1 \<rparr> \<rparr>"
  have L: "pageLimit (query_limit ?req) = Inr (Finite 1)"
    by (simp add: listing_def pageLimit_samples)
  have Q: "cursorQuery plainHost (query_after ?req) = Inr liveQuery"
    by (simp add: listing_def cursorQuery_None)
  have r: "response (get_api_posts plainHost ?db ?req) = Ok ?pg"
    by (simp add: page_shape [OF L _ Q] matching_samples encodeCursor_sample2)
  from nextCursor_iff_hasMore [OF r, of 1] show ?thesis
    using r by simp
qed

end
